theory Spec2Isabelle
  imports Main "HOL-Library.AList"
begin

section \<open>Data model of DebounceLink.ts\<close>

text \<open>
  The link keeps one dictionary \<open>debounceInfo\<close> from debounce keys to a mutable
  \<open>DebounceMetadata\<close> object. JavaScript objects used as dictionaries are modelled as
  association lists with unique keys: a read is \<open>map_of\<close>, an assignment is
  \<open>AList.update\<close>, \<open>delete obj[k]\<close> is \<open>AList.delete\<close>, and
  \<open>Object.keys(obj).length === 0\<close> is the test for the empty list.

  Object references are natural numbers. An observer carries the reference \<open>oid\<close>
  and one flag for each of its optional callbacks, which the source tests with
  \<open>observer.next && observer.next(v)\<close>. The reference comparison
  \<open>obs !== observer\<close> is inequality of these values. Delays and due times are
  milliseconds as natural numbers, and \<open>currentGroupId\<close> is a natural number (the
  source's own note puts the exhaustion of safe integers out of reach).
\<close>

type_synonym key = string
type_synonym timer_id = nat
type_synonym call_id = nat
type_synonym forward = nat

record operation =
  debounceKey :: "string option"
  debounceTimeout :: "nat option"
  query :: nat

record observer =
  oid :: nat
  has_next :: bool
  has_error :: bool
  has_complete :: bool

datatype event = Next nat | Error nat | Complete

datatype error = TypeError

record running_group =
  observers :: "observer list"
  subscription :: call_id

record DebounceMetadata =
  timeout :: "timer_id option"
  runningSubscriptions :: "(nat \<times> running_group) list"
  queuedObservers :: "observer list"
  currentGroupId :: nat
  lastRequest :: "(operation \<times> forward) option"

text \<open>
  A \<open>call\<close> is one \<open>forward(operation).subscribe({next, error, complete})\<close> made by
  \<open>flush\<close>. Its three handlers are closures over \<open>debounceKey\<close>, \<open>groupId\<close> and the
  array \<open>currentObservers\<close>; the record keeps these captured values. \<open>c_closed\<close> is
  the state of the downstream subscription: closed once it has delivered an error or a
  completion, or once its \<open>unsubscribe()\<close> was invoked.
\<close>

record call =
  c_operation :: operation
  c_forward :: forward
  c_key :: key
  c_groupId :: nat
  c_observers :: "observer list"
  c_closed :: bool

text \<open>
  The state is the link object (\<open>debounceInfo\<close>, \<open>defaultDelay\<close>) together with the
  part of the environment the link acts on: a virtual clock and the pending timers set by
  \<open>setTimeout\<close> (identifier, due time, and the key of the \<open>flush\<close> the timer runs), the
  log of \<open>forward(operation)\<close> invocations, the downstream subscriptions, the log of
  \<open>subscription.unsubscribe()\<close> invocations, and the log of observer callbacks invoked.
\<close>

record link =
  debounceInfo :: "(key \<times> DebounceMetadata) list"
  defaultDelay :: nat
  clock :: nat
  timers :: "(timer_id \<times> nat \<times> key) list"
  nextTimer :: timer_id
  forwarded :: "(operation \<times> forward) list"
  calls :: "call list"
  unsubscribed :: "call_id list"
  delivered :: "(observer \<times> event) list"

text \<open>\<open>new DebounceLink(defaultDelay)\<close> in a fresh environment.\<close>

definition new_link :: "nat \<Rightarrow> link" where
  "new_link d =
     \<lparr>debounceInfo = [], defaultDelay = d, clock = 0, timers = [], nextTimer = 1,
      forwarded = [], calls = [], unsubscribed = [], delivered = []\<rparr>"

section \<open>The environment: timers and the downstream link\<close>

text \<open>
  \<open>setTimeout\<close> returns a fresh handle, which is truthy (a positive number in a
  browser, an object in Node). \<open>clearTimeout\<close> of \<open>undefined\<close>, of a timer that already
  fired or of one that was already cleared does nothing.
\<close>

definition setTimeout :: "key \<Rightarrow> nat \<Rightarrow> link \<Rightarrow> timer_id \<times> link" where
  "setTimeout k d s =
     (nextTimer s,
      s\<lparr>timers := timers s @ [(nextTimer s, clock s + d, k)],
        nextTimer := Suc (nextTimer s)\<rparr>)"

definition clearTimeout :: "timer_id option \<Rightarrow> link \<Rightarrow> link" where
  "clearTimeout h s =
     (case h of
        None \<Rightarrow> s
      | Some t \<Rightarrow> s\<lparr>timers := filter (\<lambda>tm. fst tm \<noteq> t) (timers s)\<rparr>)"

text \<open>
  \<open>forward(operation).subscribe(handlers)\<close>: the invocation of \<open>forward\<close> is logged,
  and the new subscription is the next index of \<open>calls\<close>. The downstream link delivers
  its events later (as separate steps, see \<open>emit\<close>), never inside \<open>subscribe\<close>.
\<close>

definition forward_subscribe ::
  "operation \<Rightarrow> forward \<Rightarrow> key \<Rightarrow> nat \<Rightarrow> observer list \<Rightarrow> link \<Rightarrow> call_id \<times> link" where
  "forward_subscribe op fwd k g obs s =
     (length (calls s),
      s\<lparr>forwarded := forwarded s @ [(op, fwd)],
        calls := calls s @
          [\<lparr>c_operation = op, c_forward = fwd, c_key = k, c_groupId = g,
            c_observers = obs, c_closed = False\<rparr>]\<rparr>)"

definition close_call :: "call_id \<Rightarrow> link \<Rightarrow> link" where
  "close_call c s =
     (if c < length (calls s)
      then s\<lparr>calls := (calls s)[c := (calls s ! c)\<lparr>c_closed := True\<rparr>]\<rparr>
      else s)"

text \<open>\<open>subscription.unsubscribe()\<close> on a downstream subscription.\<close>

definition subscription_unsubscribe :: "call_id \<Rightarrow> link \<Rightarrow> link" where
  "subscription_unsubscribe c s = close_call c (s\<lparr>unsubscribed := unsubscribed s @ [c]\<rparr>)"

fun handles :: "observer \<Rightarrow> event \<Rightarrow> bool" where
  "handles ob (Next v) = has_next ob"
| "handles ob (Error e) = has_error ob"
| "handles ob Complete = has_complete ob"

text \<open>
  \<open>currentObservers.forEach(observer => observer.next && observer.next(v))\<close> and its
  two siblings: every observer of the array that has the callback gets the event, in the
  order of the array.
\<close>

definition fan_out :: "observer list \<Rightarrow> event \<Rightarrow> link \<Rightarrow> link" where
  "fan_out obs ev s =
     s\<lparr>delivered := delivered s @ map (\<lambda>ob. (ob, ev)) (filter (\<lambda>ob. handles ob ev) obs)\<rparr>"

section \<open>The operations of DebounceLink\<close>

definition setupDebounceInfo :: "key \<Rightarrow> link \<Rightarrow> DebounceMetadata \<times> link" where
  "setupDebounceInfo k s =
     (let dbi = \<lparr>timeout = None, runningSubscriptions = [], queuedObservers = [],
                 currentGroupId = 0, lastRequest = None\<rparr>
      in (dbi, s\<lparr>debounceInfo := AList.update k dbi (debounceInfo s)\<rparr>))"

text \<open>
  \<open>debounceTimeout || this.defaultDelay\<close>: an absent or zero override is falsy.
\<close>

definition delay_of :: "nat option \<Rightarrow> link \<Rightarrow> nat" where
  "delay_of dt s =
     (case dt of None \<Rightarrow> defaultDelay s
      | Some d \<Rightarrow> if d = 0 then defaultDelay s else d)"

text \<open>
  The dictionary is a plain object literal \<open>{}\<close>, and \<open>enqueueRequest\<close> reads it with
  \<open>this.debounceInfo[debounceKey] || this.setupDebounceInfo(debounceKey)\<close>. A key with
  no record of its own that names a member of \<open>Object.prototype\<close> reads the inherited
  member, which is truthy: no record is set up, \<open>dbi.queuedObservers\<close> is
  \<open>undefined\<close> and \<open>dbi.queuedObservers.push(observer)\<close> throws a TypeError before
  anything was changed. The names are those of ECMAScript's \<open>Object.prototype\<close>,
  its legacy accessors included.
\<close>

definition object_prototype_names :: "key list" where
  "object_prototype_names =
     [''constructor'', ''hasOwnProperty'', ''isPrototypeOf'', ''propertyIsEnumerable'',
      ''toLocaleString'', ''toString'', ''valueOf'', ''__proto__'',
      ''__defineGetter__'', ''__defineSetter__'', ''__lookupGetter__'',
      ''__lookupSetter__'']"

definition inherited :: "key \<Rightarrow> bool" where
  "inherited k = (k \<in> set object_prototype_names)"

definition enqueueRequest ::
  "key \<Rightarrow> nat option \<Rightarrow> operation \<Rightarrow> forward \<Rightarrow> observer \<Rightarrow> link \<Rightarrow> error + nat \<times> link" where
  "enqueueRequest k dt op fwd ob s =
     (case (case map_of (debounceInfo s) k of
              Some d \<Rightarrow> Some (d, s)
            | None \<Rightarrow> if inherited k then None else Some (setupDebounceInfo k s)) of
        None \<Rightarrow> Inl TypeError
      | Some (dbi, s1) \<Rightarrow>
          (let dbi1 = dbi\<lparr>queuedObservers := queuedObservers dbi @ [ob],
                          lastRequest := Some (op, fwd)\<rparr>;
               s2 = (case timeout dbi1 of Some t \<Rightarrow> clearTimeout (Some t) s1 | None \<Rightarrow> s1);
               (t, s3) = setTimeout k (delay_of dt s2) s2;
               dbi2 = dbi1\<lparr>timeout := Some t\<rparr>
           in Inr (currentGroupId dbi2,
                   s3\<lparr>debounceInfo := AList.update k dbi2 (debounceInfo s3)\<rparr>)))"

text \<open>
  \<open>cleanup\<close>, \<open>flush\<close> and \<open>unsubscribe\<close> are entered only through a handler, a timer
  or a cancel closure that carries the key of an earlier \<open>enqueueRequest\<close> that
  returned, hence never with such a name; their reads of the dictionary are reads of its
  own entries.
\<close>

definition cleanup :: "key \<Rightarrow> nat \<Rightarrow> link \<Rightarrow> link" where
  "cleanup k g s =
     (case map_of (debounceInfo s) k of
        None \<Rightarrow> s
      | Some dbi \<Rightarrow>
          (let dbi1 = dbi\<lparr>runningSubscriptions := AList.delete g (runningSubscriptions dbi)\<rparr>;
               s1 = (if g = currentGroupId dbi1 then clearTimeout (timeout dbi1) s else s);
               noRunningSubscriptions = (runningSubscriptions dbi1 = []);
               noQueuedObservers = (queuedObservers dbi1 = [])
           in if noRunningSubscriptions \<and> noQueuedObservers
              then s1\<lparr>debounceInfo := AList.delete k (debounceInfo s1)\<rparr>
              else s1\<lparr>debounceInfo := AList.update k dbi1 (debounceInfo s1)\<rparr>))"

text \<open>
  \<open>flush\<close> reads \<open>dbi.queuedObservers\<close> without testing \<open>dbi\<close>: on a key with no
  record the property access on \<open>undefined\<close> throws a TypeError.
\<close>

definition flush :: "key \<Rightarrow> link \<Rightarrow> error + link" where
  "flush k s =
     (case map_of (debounceInfo s) k of
        None \<Rightarrow> Inl TypeError
      | Some dbi \<Rightarrow>
          if queuedObservers dbi = [] then Inr s
          else
            (case lastRequest dbi of
               None \<Rightarrow> Inr s
             | Some (op, fwd) \<Rightarrow>
                 (let currentObservers = queuedObservers dbi;
                      groupId = currentGroupId dbi;
                      (sub, s1) = forward_subscribe op fwd k groupId currentObservers s;
                      dbi1 = dbi\<lparr>runningSubscriptions :=
                                   AList.update (currentGroupId dbi)
                                     \<lparr>observers = currentObservers, subscription = sub\<rparr>
                                     (runningSubscriptions dbi),
                                 queuedObservers := [],
                                 currentGroupId := Suc (currentGroupId dbi)\<rparr>
                  in Inr (s1\<lparr>debounceInfo := AList.update k dbi1 (debounceInfo s1)\<rparr>))))"

definition unsubscribe :: "key \<Rightarrow> nat \<Rightarrow> observer \<Rightarrow> link \<Rightarrow> link" where
  "unsubscribe k g ob s =
     (case map_of (debounceInfo s) k of
        None \<Rightarrow> s
      | Some dbi \<Rightarrow>
          if g = currentGroupId dbi then
            (let dbi1 = dbi\<lparr>queuedObservers := filter (\<lambda>obs. obs \<noteq> ob) (queuedObservers dbi)\<rparr>;
                 s1 = s\<lparr>debounceInfo := AList.update k dbi1 (debounceInfo s)\<rparr>
             in if queuedObservers dbi1 = [] then cleanup k g s1 else s1)
          else
            (case map_of (runningSubscriptions dbi) g of
               None \<Rightarrow> s
             | Some observerGroup \<Rightarrow>
                 (let og1 = observerGroup\<lparr>observers :=
                              filter (\<lambda>obs. obs \<noteq> ob) (observers observerGroup)\<rparr>;
                      dbi1 = dbi\<lparr>runningSubscriptions :=
                                   AList.update g og1 (runningSubscriptions dbi)\<rparr>;
                      s1 = s\<lparr>debounceInfo := AList.update k dbi1 (debounceInfo s)\<rparr>
                  in if observers og1 = []
                     then cleanup k g (subscription_unsubscribe (subscription og1) s1)
                     else s1)))"

text \<open>
  \<open>request\<close> returns an observable: either the one \<open>forward(operation)\<close> returned,
  handed back untouched (\<open>Forwarded n\<close>, with \<open>n\<close> the index of that invocation in the
  log), or a new one whose subscriber function closes over \<open>debounceKey\<close>,
  \<open>debounceTimeout\<close>, \<open>operation\<close> and \<open>forward\<close>. \<open>!debounceKey\<close> holds for
  \<open>undefined\<close> and for the empty string.
\<close>

datatype observable = Forwarded nat | Debounced key "nat option" operation forward

definition request :: "operation \<Rightarrow> forward \<Rightarrow> link \<Rightarrow> observable \<times> link" where
  "request op fwd s =
     (case debounceKey op of
        None \<Rightarrow> (Forwarded (length (forwarded s)), s\<lparr>forwarded := forwarded s @ [(op, fwd)]\<rparr>)
      | Some k \<Rightarrow>
          if k = [] then
            (Forwarded (length (forwarded s)), s\<lparr>forwarded := forwarded s @ [(op, fwd)]\<rparr>)
          else (Debounced k (debounceTimeout op) op fwd, s))"

text \<open>
  Subscribing \<open>observer\<close> to the observable of \<open>request\<close>. For a debounced one the
  subscriber function runs \<open>enqueueRequest\<close> and returns the closure
  \<open>() => this.unsubscribe(debounceKey, debounceGroupId, observer)\<close>, kept here as the
  triple of its captured values; an exception of \<open>enqueueRequest\<close> leaves the
  subscriber function before a closure exists. A forwarded observable belongs to the
  downstream link: subscribing to it does not enter this link.
\<close>

definition subscribe ::
  "observable \<Rightarrow> observer \<Rightarrow> link \<Rightarrow> error + (key \<times> nat \<times> observer) option \<times> link" where
  "subscribe obl ob s =
     (case obl of
        Forwarded n \<Rightarrow> Inr (None, s)
      | Debounced k dt op fwd \<Rightarrow>
          (case enqueueRequest k dt op fwd ob s of
             Inl e \<Rightarrow> Inl e
           | Inr (g, s1) \<Rightarrow> Inr (Some (k, g, ob), s1)))"

text \<open>
  An event of downstream subscription \<open>c\<close> reaches the handlers \<open>flush\<close> passed to
  \<open>subscribe\<close>. \<open>next\<close> fans the value out; \<open>error\<close> and \<open>complete\<close> fan out and
  then run \<open>cleanup(debounceKey, groupId)\<close>.

  What the Observable contract contributes: a subscription that has delivered an error or
  a completion, or that was unsubscribed, is closed and delivers nothing more. The
  observers' callbacks are opaque to the link; an invocation is recorded in \<open>delivered\<close>
  and does not call back into the link.
\<close>

definition emit :: "call_id \<Rightarrow> event \<Rightarrow> link \<Rightarrow> link" where
  "emit c ev s =
     (if c < length (calls s) \<and> \<not> c_closed (calls s ! c) then
        (let cl = calls s ! c in
         case ev of
           Next v \<Rightarrow> fan_out (c_observers cl) ev s
         | Error e \<Rightarrow>
             cleanup (c_key cl) (c_groupId cl) (close_call c (fan_out (c_observers cl) ev s))
         | Complete \<Rightarrow>
             cleanup (c_key cl) (c_groupId cl) (close_call c (fan_out (c_observers cl) ev s)))
      else s)"

section \<open>The scheduler and the stimuli of the link\<close>

text \<open>
  The timer that fires next is the pending one with the least due time; among timers due
  at the same time the one set first fires first.
\<close>

fun earliest :: "(timer_id \<times> nat \<times> key) list \<Rightarrow> (timer_id \<times> nat \<times> key) option" where
  "earliest [] = None"
| "earliest (tm # tms) =
     (case earliest tms of
        None \<Rightarrow> Some tm
      | Some tm' \<Rightarrow> if fst (snd tm) \<le> fst (snd tm') then Some tm else Some tm')"

text \<open>
  Advancing the virtual clock to time \<open>t\<close>: as long as a pending timer is due by
  \<open>t\<close>, the earliest one is taken off the pending list, the clock moves to its due
  time and its callback \<open>() => this.flush(debounceKey)\<close> runs; an exception thrown by
  the callback ends the run. \<open>flush\<close> sets no timer, so the loop ends.
\<close>

function run_timers_to :: "nat \<Rightarrow> link \<Rightarrow> error + link" where
  "run_timers_to t s =
     (case earliest (timers s) of
        None \<Rightarrow> Inr (s\<lparr>clock := max (clock s) t\<rparr>)
      | Some tm \<Rightarrow>
          if fst (snd tm) \<le> t then
            (case flush (snd (snd tm))
                    (s\<lparr>clock := max (clock s) (fst (snd tm)),
                       timers := filter (\<lambda>x. fst x \<noteq> fst tm) (timers s)\<rparr>) of
               Inl e \<Rightarrow> Inl e
             | Inr s' \<Rightarrow> run_timers_to t s')
          else Inr (s\<lparr>clock := max (clock s) t\<rparr>))"
  by pat_completeness auto
termination
proof (relation "measure (\<lambda>(t, s). length (timers s))", goal_cases)
  case 1
  show ?case by simp
next
  case (2 t s tm s')
  have mem: "earliest tms = Some x \<Longrightarrow> x \<in> set tms" for tms x
    by (induction tms arbitrary: x) (auto split: option.splits if_splits)
  have shorter: "x \<in> set xs \<Longrightarrow> length (filter (\<lambda>y. fst y \<noteq> fst x) xs) < length xs"
    for x :: "timer_id \<times> nat \<times> key" and xs
    by (induction xs) (auto simp: less_Suc_eq_le)
  from 2(3) have "timers s' = filter (\<lambda>x. fst x \<noteq> fst tm) (timers s)"
    by (auto simp: flush_def forward_subscribe_def Let_def
        split: option.splits if_splits prod.splits)
  with mem[OF 2(1)] show ?case
    by (auto intro: shorter)
qed

declare run_timers_to.simps [simp del]

text \<open>
  What reaches the link from outside, one event of the host's event loop at a time: a
  caller executes a request and subscribes an observer to the result; a caller runs a
  cancel closure \<open>() => this.unsubscribe(key, groupId, observer)\<close>; time passes; a
  downstream subscription emits an event. A stimulus during which the link throws has
  the exception as its result and no state after it (\<open>enqueueRequest\<close> and \<open>flush\<close>
  throw before they change anything). A state is reachable when a run of such stimuli
  leads to it from a new link.
\<close>

datatype stimulus =
    Execute operation forward observer
  | Cancel key nat observer
  | RunTimersTo nat
  | Emit call_id event

fun step :: "stimulus \<Rightarrow> link \<Rightarrow> error + link" where
  "step (Execute op fwd ob) s =
     (let (obl, s1) = request op fwd s
      in case subscribe obl ob s1 of Inl x \<Rightarrow> Inl x | Inr (h, s2) \<Rightarrow> Inr s2)"
| "step (Cancel k g ob) s = Inr (unsubscribe k g ob s)"
| "step (RunTimersTo t) s = run_timers_to t s"
| "step (Emit c ev) s = Inr (emit c ev s)"

fun steps :: "stimulus list \<Rightarrow> link \<Rightarrow> error + link" where
  "steps [] s = Inr s"
| "steps (e # es) s = (case step e s of Inl x \<Rightarrow> Inl x | Inr s' \<Rightarrow> steps es s')"

inductive reachable :: "link \<Rightarrow> bool" where
  init: "reachable (new_link d)"
| step: "reachable s \<Longrightarrow> step e s = Inr s' \<Longrightarrow> reachable s'"

section \<open>Invariant of the reachable states\<close>

text \<open>
  A record is in order when its last request is set, it has work (a queued observer or a
  running generation), and every running generation is below the live one.
\<close>

definition group_ok :: "DebounceMetadata \<Rightarrow> bool" where
  "group_ok dbi \<longleftrightarrow>
     lastRequest dbi \<noteq> None \<and>
     (queuedObservers dbi \<noteq> [] \<or> runningSubscriptions dbi \<noteq> []) \<and>
     (\<forall>g og. map_of (runningSubscriptions dbi) g = Some og \<longrightarrow> g < currentGroupId dbi)"

text \<open>
  The pending timers have distinct handles, all issued already, and each belongs to an
  existing record with a non-empty queue whose \<open>timeout\<close> field is the timer's handle.
\<close>

definition timers_ok :: "link \<Rightarrow> bool" where
  "timers_ok s \<longleftrightarrow>
     distinct (map fst (timers s)) \<and>
     (\<forall>i due k. (i, due, k) \<in> set (timers s) \<longrightarrow>
        i < nextTimer s \<and>
        (\<exists>dbi. map_of (debounceInfo s) k = Some dbi \<and> queuedObservers dbi \<noteq> [] \<and>
               timeout dbi = Some i))"

definition inv :: "link \<Rightarrow> bool" where
  "inv s \<longleftrightarrow>
     (\<forall>k dbi. map_of (debounceInfo s) k = Some dbi \<longrightarrow> group_ok dbi) \<and> timers_ok s"

text \<open>
  The states in which \<open>cleanup(k, g)\<close> is entered: the invariant, except that the
  record of \<open>k\<close> may be out of work, and that a timer of \<open>k\<close> may still be pending
  for an emptied queue when \<open>g\<close> is the live generation.
\<close>

definition pre_cleanup :: "key \<Rightarrow> nat \<Rightarrow> link \<Rightarrow> bool" where
  "pre_cleanup k g s \<longleftrightarrow>
     (\<forall>k' dbi. map_of (debounceInfo s) k' = Some dbi \<longrightarrow>
        lastRequest dbi \<noteq> None \<and>
        (\<forall>g' og. map_of (runningSubscriptions dbi) g' = Some og \<longrightarrow> g' < currentGroupId dbi) \<and>
        (k' \<noteq> k \<longrightarrow> queuedObservers dbi \<noteq> [] \<or> runningSubscriptions dbi \<noteq> [])) \<and>
     distinct (map fst (timers s)) \<and>
     (\<forall>i due k'. (i, due, k') \<in> set (timers s) \<longrightarrow>
        i < nextTimer s \<and>
        (\<exists>dbi. map_of (debounceInfo s) k' = Some dbi \<and> timeout dbi = Some i \<and>
           (queuedObservers dbi \<noteq> [] \<or> k' = k \<and> g = currentGroupId dbi)))"

section \<open>Concrete requests and observers for the worked examples\<close>

definition ex_op :: "nat \<Rightarrow> operation" where
  "ex_op q = \<lparr>debounceKey = Some ''k'', debounceTimeout = None, query = q\<rparr>"

definition ex_ob :: "nat \<Rightarrow> observer" where
  "ex_ob n = \<lparr>oid = n, has_next = True, has_error = True, has_complete = True\<rparr>"

section \<open>Event streams of a downstream call\<close>

text \<open>
  A downstream subscription delivers data events and then at most one error or
  completion, after which it is closed: of a list of events offered to it, the ones it
  delivers are those up to and including the first terminal one.
\<close>

fun accepted :: "event list \<Rightarrow> event list" where
  "accepted [] = []"
| "accepted (Next v # evs) = Next v # accepted evs"
| "accepted (Error e # evs) = [Error e]"
| "accepted (Complete # evs) = [Complete]"

definition deliveries :: "observer list \<Rightarrow> event list \<Rightarrow> (observer \<times> event) list" where
  "deliveries obs evs =
     concat (map (\<lambda>ev. map (\<lambda>ob. (ob, ev)) (filter (\<lambda>ob. handles ob ev) obs)) evs)"

definition emits :: "call_id \<Rightarrow> event list \<Rightarrow> link \<Rightarrow> link" where
  "emits c evs s = fold (emit c) evs s"


text \<open>
  The state after two requests for key \<open>k\<close> have been submitted and their timer has
  fired: generation 0 is running with both observers, generation 1 is accumulating.
\<close>

definition ex_running :: link where
  "ex_running =
     \<lparr>debounceInfo =
        [(''k'',
          \<lparr>timeout = Some 2,
           runningSubscriptions =
             [(0, \<lparr>observers = [ex_ob 1, ex_ob 2], subscription = 0\<rparr>)],
           queuedObservers = [], currentGroupId = 1,
           lastRequest = Some (ex_op 2, 0)\<rparr>)],
      defaultDelay = 500, clock = 500, timers = [], nextTimer = 3,
      forwarded = [(ex_op 2, 0)],
      calls = [\<lparr>c_operation = ex_op 2, c_forward = 0, c_key = ''k'', c_groupId = 0,
                c_observers = [ex_ob 1, ex_ob 2], c_closed = False\<rparr>],
      unsubscribed = [], delivered = []\<rparr>"

text \<open>
  The state after two requests for key \<open>k\<close> have been submitted at time 0 and before
  their timer fires: both observers are queued and one timer is pending, due at 500.
\<close>

definition ex_pending :: link where
  "ex_pending =
     \<lparr>debounceInfo =
        [(''k'',
          \<lparr>timeout = Some 2, runningSubscriptions = [],
           queuedObservers = [ex_ob 1, ex_ob 2], currentGroupId = 0,
           lastRequest = Some (ex_op 2, 0)\<rparr>)],
      defaultDelay = 500, clock = 0, timers = [(2, 500, ''k'')], nextTimer = 3,
      forwarded = [], calls = [], unsubscribed = [], delivered = []\<rparr>"

section \<open>Deletion of records\<close>

text \<open>Every key that has a record in the first state has one in the second.\<close>

definition keeps_records :: "link \<Rightarrow> link \<Rightarrow> bool" where
  "keeps_records s s1 \<longleftrightarrow>
     (\<forall>k. map_of (debounceInfo s) k \<noteq> None \<longrightarrow> map_of (debounceInfo s1) k \<noteq> None)"

section \<open>Generation identifiers\<close>

text \<open>
  The generation identifiers of the batches flushed for a key, in the order of the
  flushes, are the \<open>groupId\<close>s captured by the downstream calls made for that key. The
  live generation of a key is the \<open>currentGroupId\<close> of its record. A run of stimuli
  keeps the record of a key alive when the record exists in every state of the run.
\<close>

definition generations :: "key \<Rightarrow> link \<Rightarrow> nat list" where
  "generations k s = map c_groupId (filter (\<lambda>c. c_key c = k) (calls s))"

definition live_generation :: "key \<Rightarrow> link \<Rightarrow> nat" where
  "live_generation k s =
     (case map_of (debounceInfo s) k of None \<Rightarrow> 0 | Some dbi \<Rightarrow> currentGroupId dbi)"

fun alive :: "key \<Rightarrow> stimulus list \<Rightarrow> link \<Rightarrow> bool" where
  "alive k [] s = (map_of (debounceInfo s) k \<noteq> None)"
| "alive k (e # es) s =
     (map_of (debounceInfo s) k \<noteq> None \<and>
      (case step e s of Inl x \<Rightarrow> False | Inr s' \<Rightarrow> alive k es s'))"

text \<open>The record \<open>setupDebounceInfo\<close> creates.\<close>

definition fresh_record :: DebounceMetadata where
  "fresh_record = \<lparr>timeout = None, runningSubscriptions = [], queuedObservers = [],
                 currentGroupId = 0, lastRequest = None\<rparr>"

section \<open>Downstream calls and timers of one key\<close>




section \<open>Bursts of submissions\<close>











section \<open>The earliest timer\<close>

lemma earliest_mem: "earliest tms = Some tm \<Longrightarrow> tm \<in> set tms"
  by (induction tms arbitrary: tm) (auto split: option.splits if_splits)



section \<open>The invariant is preserved\<close>

lemma inv_new_link: "inv (new_link d)"
  by (simp add: inv_def new_link_def timers_ok_def)

lemma cleanup_absent: "map_of (debounceInfo s) k = None \<Longrightarrow> cleanup k g s = s"
  by (simp add: cleanup_def)

lemma cleanup_groups:
  "map_of (debounceInfo s) k = Some dbi \<Longrightarrow>
   map_of (debounceInfo (cleanup k g s)) =
     (map_of (debounceInfo s))
       (k := if AList.delete g (runningSubscriptions dbi) = [] \<and> queuedObservers dbi = []
             then None
             else Some (dbi\<lparr>runningSubscriptions := AList.delete g (runningSubscriptions dbi)\<rparr>))"
  by (auto simp: cleanup_def Let_def clearTimeout_def update_conv' delete_conv' split: option.splits)

lemma cleanup_timers:
  "map_of (debounceInfo s) k = Some dbi \<Longrightarrow>
   timers (cleanup k g s) =
     (if g = currentGroupId dbi
      then filter (\<lambda>tm. Some (fst tm) \<noteq> timeout dbi) (timers s) else timers s)"
  by (auto simp: cleanup_def Let_def clearTimeout_def split: option.splits)

lemma cleanup_frame:
  "calls (cleanup k g s) = calls s" "nextTimer (cleanup k g s) = nextTimer s"
  "clock (cleanup k g s) = clock s" "defaultDelay (cleanup k g s) = defaultDelay s"
  "forwarded (cleanup k g s) = forwarded s" "unsubscribed (cleanup k g s) = unsubscribed s"
  "delivered (cleanup k g s) = delivered s"
  by (auto simp: cleanup_def Let_def clearTimeout_def split: option.splits)

lemma distinct_map_filter_fst: "distinct (map fst xs) \<Longrightarrow> distinct (map fst (filter P xs))"
  by (induction xs) auto

lemma invD_group: "inv s \<Longrightarrow> map_of (debounceInfo s) k = Some dbi \<Longrightarrow> group_ok dbi"
  by (simp add: inv_def)

lemma invD_distinct: "inv s \<Longrightarrow> distinct (map fst (timers s))"
  by (simp add: inv_def timers_ok_def)

lemma invD_timer:
  "inv s \<Longrightarrow> (i, due, k) \<in> set (timers s) \<Longrightarrow>
   i < nextTimer s \<and> (\<exists>dbi. map_of (debounceInfo s) k = Some dbi \<and> queuedObservers dbi \<noteq> [] \<and>
               timeout dbi = Some i)"
  unfolding inv_def timers_ok_def by blast

lemma invI:
  assumes "\<And>k dbi. map_of (debounceInfo s) k = Some dbi \<Longrightarrow> group_ok dbi"
    and "distinct (map fst (timers s))"
    and "\<And>i due k. (i, due, k) \<in> set (timers s) \<Longrightarrow>
          i < nextTimer s \<and> (\<exists>dbi. map_of (debounceInfo s) k = Some dbi \<and>
             queuedObservers dbi \<noteq> [] \<and> timeout dbi = Some i)"
  shows "inv s"
  unfolding inv_def timers_ok_def using assms by blast

lemma pre_cleanupD_group:
  "pre_cleanup k g s \<Longrightarrow> map_of (debounceInfo s) k' = Some dbi \<Longrightarrow>
     lastRequest dbi \<noteq> None \<and>
        (\<forall>g' og. map_of (runningSubscriptions dbi) g' = Some og \<longrightarrow> g' < currentGroupId dbi) \<and>
        (k' \<noteq> k \<longrightarrow> queuedObservers dbi \<noteq> [] \<or> runningSubscriptions dbi \<noteq> [])"
  unfolding pre_cleanup_def by blast

lemma pre_cleanupD_timer:
  "pre_cleanup k g s \<Longrightarrow> (i, due, k') \<in> set (timers s) \<Longrightarrow>
     i < nextTimer s \<and>
        (\<exists>dbi. map_of (debounceInfo s) k' = Some dbi \<and> timeout dbi = Some i \<and>
           (queuedObservers dbi \<noteq> [] \<or> k' = k \<and> g = currentGroupId dbi))"
  unfolding pre_cleanup_def by blast

lemma pre_cleanupD_distinct: "pre_cleanup k g s \<Longrightarrow> distinct (map fst (timers s))"
  unfolding pre_cleanup_def by blast

lemma inv_pre_cleanup: "inv s \<Longrightarrow> pre_cleanup k g s"
  unfolding inv_def group_ok_def timers_ok_def pre_cleanup_def by blast

lemma map_of_delete_Some: "map_of (AList.delete g al) g' = Some v \<Longrightarrow> map_of al g' = Some v"
  by (auto simp: delete_conv' split: if_splits)

lemma cleanup_inv_weak:
  assumes pre: "pre_cleanup k g s"
  shows "inv (cleanup k g s)"
proof (cases "map_of (debounceInfo s) k")
  case None
  have s: "cleanup k g s = s" by (simp add: cleanup_absent None)
  show ?thesis unfolding s
  proof (rule invI)
    fix k' dbi assume a: "map_of (debounceInfo s) k' = Some dbi"
    with None have "k' \<noteq> k" by auto
    with pre_cleanupD_group[OF pre a] show "group_ok dbi" by (simp add: group_ok_def)
  next
    show "distinct (map fst (timers s))" by (rule pre_cleanupD_distinct[OF pre])
  next
    fix i due k' assume a: "(i, due, k') \<in> set (timers s)"
    from pre_cleanupD_timer[OF pre a] None
    show "i < nextTimer s \<and> (\<exists>dbi. map_of (debounceInfo s) k' = Some dbi \<and>
             queuedObservers dbi \<noteq> [] \<and> timeout dbi = Some i)"
      by auto
  qed
next
  case (Some dbi)
  note G = cleanup_groups[OF Some, of g] and T = cleanup_timers[OF Some, of g]
  show ?thesis
  proof (rule invI)
    fix k' d assume a: "map_of (debounceInfo (cleanup k g s)) k' = Some d"
    show "group_ok d"
    proof (cases "k' = k")
      case True
      with a have d: "d = dbi\<lparr>runningSubscriptions := AList.delete g (runningSubscriptions dbi)\<rparr>"
        and ne: "\<not> (AList.delete g (runningSubscriptions dbi) = [] \<and> queuedObservers dbi = [])"
        unfolding G by (auto split: if_splits)
      from pre_cleanupD_group[OF pre Some] ne show ?thesis
        unfolding d group_ok_def by (auto dest: map_of_delete_Some)
    next
      case False
      with a have "map_of (debounceInfo s) k' = Some d" unfolding G by simp
      from pre_cleanupD_group[OF pre this] False show ?thesis by (simp add: group_ok_def)
    qed
  next
    show "distinct (map fst (timers (cleanup k g s)))"
      unfolding T using pre_cleanupD_distinct[OF pre] by (simp add: distinct_map_filter_fst)
  next
    fix i due k' assume a: "(i, due, k') \<in> set (timers (cleanup k g s))"
    then have mem: "(i, due, k') \<in> set (timers s)"
      unfolding T by (auto split: if_splits)
    from pre_cleanupD_timer[OF pre mem] obtain d where d: "i < nextTimer s"
      "map_of (debounceInfo s) k' = Some d"
      "timeout d = Some i" "queuedObservers d \<noteq> [] \<or> k' = k \<and> g = currentGroupId d"
      by blast
    show "i < nextTimer (cleanup k g s) \<and>
        (\<exists>d. map_of (debounceInfo (cleanup k g s)) k' = Some d \<and> queuedObservers d \<noteq> [] \<and>
               timeout d = Some i)"
    proof (cases "k' = k")
      case False
      with d show ?thesis unfolding G by (simp add: cleanup_frame)
    next
      case True
      with d Some have dd: "d = dbi" by simp
      from a d(3) have "g \<noteq> currentGroupId dbi"
        unfolding T dd by (auto split: if_splits)
      with d(4) True have "queuedObservers dbi \<noteq> []" unfolding dd by simp
      with d True show ?thesis unfolding G dd by (simp add: cleanup_frame)
    qed
  qed
qed

lemma cleanup_inv: "inv s \<Longrightarrow> inv (cleanup k g s)"
  by (rule cleanup_inv_weak[OF inv_pre_cleanup])

lemma inv_cong:
  "debounceInfo s' = debounceInfo s \<Longrightarrow> timers s' = timers s \<Longrightarrow> nextTimer s' = nextTimer s
   \<Longrightarrow> inv s' = inv s"
  by (simp add: inv_def timers_ok_def)

lemma pre_cleanup_store:
  assumes i: "inv s" and g: "map_of (debounceInfo s) k = Some dbi"
    and d: "lastRequest d \<noteq> None"
      "\<And>g' og. map_of (runningSubscriptions d) g' = Some og \<Longrightarrow> g' < currentGroupId d"
      "timeout d = timeout dbi"
      "queuedObservers d \<noteq> [] \<or> g = currentGroupId d"
    and s': "debounceInfo s' = AList.update k d (debounceInfo s)" "timers s' = timers s"
      "nextTimer s' = nextTimer s"
  shows "pre_cleanup k g s'"
  unfolding pre_cleanup_def s' update_conv'
proof (intro conjI allI impI)
  fix k' dbi' assume a: "((map_of (debounceInfo s))(k \<mapsto> d)) k' = Some dbi'"
  show "lastRequest dbi' \<noteq> None"
    using a d(1) invD_group[OF i, of k' dbi'] by (auto simp: group_ok_def split: if_splits)
  { fix g' og assume "map_of (runningSubscriptions dbi') g' = Some og"
    then show "g' < currentGroupId dbi'"
      using a d(2) invD_group[OF i, of k' dbi'] by (auto simp: group_ok_def split: if_splits) }
  { assume "k' \<noteq> k"
    then show "queuedObservers dbi' \<noteq> [] \<or> runningSubscriptions dbi' \<noteq> []"
      using a invD_group[OF i, of k' dbi'] by (auto simp: group_ok_def) }
next
  show "distinct (map fst (timers s))" by (rule invD_distinct[OF i])
next
  fix i' due k' assume a: "(i', due, k') \<in> set (timers s)"
  from invD_timer[OF i a] show "i' < nextTimer s" by simp
  from invD_timer[OF i a] g d(3,4)
  show "\<exists>dbi. ((map_of (debounceInfo s))(k \<mapsto> d)) k' = Some dbi \<and> timeout dbi = Some i' \<and>
          (queuedObservers dbi \<noteq> [] \<or> k' = k \<and> g = currentGroupId dbi)"
    by (cases "k' = k") auto
qed

lemma inv_store:
  assumes i: "inv s" and g: "map_of (debounceInfo s) k = Some dbi"
    and d: "group_ok d" "timeout d = timeout dbi" "queuedObservers dbi \<noteq> [] \<Longrightarrow> queuedObservers d \<noteq> []"
    and s': "debounceInfo s' = AList.update k d (debounceInfo s)" "timers s' = timers s"
      "nextTimer s' = nextTimer s"
  shows "inv s'"
proof (rule invI)
  fix k' dbi' assume "map_of (debounceInfo s') k' = Some dbi'"
  then show "group_ok dbi'"
    using d(1) invD_group[OF i, of k' dbi'] by (auto simp: s' update_conv' split: if_splits)
next
  show "distinct (map fst (timers s'))" unfolding s' by (rule invD_distinct[OF i])
next
  fix i' due k' assume "(i', due, k') \<in> set (timers s')"
  then have a: "(i', due, k') \<in> set (timers s)" by (simp add: s')
  from invD_timer[OF i a] g d(2,3)
  show "i' < nextTimer s' \<and> (\<exists>dbi. map_of (debounceInfo s') k' = Some dbi \<and>
             queuedObservers dbi \<noteq> [] \<and> timeout dbi = Some i')"
    unfolding s' update_conv' by (cases "k' = k") auto
qed

lemma subscription_unsubscribe_frame:
  "debounceInfo (subscription_unsubscribe c s) = debounceInfo s"
  "timers (subscription_unsubscribe c s) = timers s"
  "nextTimer (subscription_unsubscribe c s) = nextTimer s"
  "clock (subscription_unsubscribe c s) = clock s"
  "defaultDelay (subscription_unsubscribe c s) = defaultDelay s"
  "forwarded (subscription_unsubscribe c s) = forwarded s"
  "delivered (subscription_unsubscribe c s) = delivered s"
  "unsubscribed (subscription_unsubscribe c s) = unsubscribed s @ [c]"
  "length (calls (subscription_unsubscribe c s)) = length (calls s)"
  by (simp_all add: subscription_unsubscribe_def close_call_def)

lemma map_of_update_Some:
  "map_of (AList.update g v al) g' = Some w \<Longrightarrow> g' = g \<and> w = v \<or> g' \<noteq> g \<and> map_of al g' = Some w"
  by (auto simp: update_conv' split: if_splits)

lemma unsubscribe_inv:
  assumes i: "inv s"
  shows "inv (unsubscribe k g ob s)"
proof (cases "map_of (debounceInfo s) k")
  case None
  then show ?thesis using i by (simp add: unsubscribe_def)
next
  case (Some dbi)
  note ok = invD_group[OF i Some]
  show ?thesis
  proof (cases "g = currentGroupId dbi")
    case True
    let ?d = "dbi\<lparr>queuedObservers := filter (\<lambda>obs. obs \<noteq> ob) (queuedObservers dbi)\<rparr>"
    let ?s1 = "s\<lparr>debounceInfo := AList.update k ?d (debounceInfo s)\<rparr>"
    show ?thesis
    proof (cases "filter (\<lambda>obs. obs \<noteq> ob) (queuedObservers dbi) = []")
      case True
      have "pre_cleanup k g ?s1"
        by (rule pre_cleanup_store[OF i Some, of ?d]) (use ok \<open>g = currentGroupId dbi\<close> in \<open>auto simp: group_ok_def\<close>)
      from cleanup_inv_weak[OF this] Some True \<open>g = currentGroupId dbi\<close> show ?thesis
        by (simp add: unsubscribe_def Let_def)
    next
      case False
      have "inv ?s1"
        by (rule inv_store[OF i Some, of ?d]) (use ok False in \<open>auto simp: group_ok_def\<close>)
      with Some False \<open>g = currentGroupId dbi\<close> show ?thesis
        by (simp add: unsubscribe_def Let_def)
    qed
  next
    case False
    show ?thesis
    proof (cases "map_of (runningSubscriptions dbi) g")
      case None
      with Some False i show ?thesis by (simp add: unsubscribe_def)
    next
      case (Some og)
      let ?og = "og\<lparr>observers := filter (\<lambda>obs. obs \<noteq> ob) (observers og)\<rparr>"
      let ?d = "dbi\<lparr>runningSubscriptions := AList.update g ?og (runningSubscriptions dbi)\<rparr>"
      let ?s1 = "s\<lparr>debounceInfo := AList.update k ?d (debounceInfo s)\<rparr>"
      have gok: "group_ok ?d"
        using ok Some unfolding group_ok_def
        by (auto dest!: map_of_update_Some)
      have i1: "inv ?s1"
        by (rule inv_store[OF i \<open>map_of (debounceInfo s) k = Some dbi\<close>, of ?d]) (use gok in auto)
      show ?thesis
      proof (cases "filter (\<lambda>obs. obs \<noteq> ob) (observers og) = []")
        case True
        have "inv (subscription_unsubscribe (subscription og) ?s1)"
          using i1 by (simp add: inv_cong[of "subscription_unsubscribe (subscription og) ?s1" ?s1] subscription_unsubscribe_frame)
        from cleanup_inv[OF this, of k g] True Some False \<open>map_of (debounceInfo s) k = Some dbi\<close>
        show ?thesis by (simp add: unsubscribe_def Let_def)
      next
        case nonempty: False
        with i1 Some False \<open>map_of (debounceInfo s) k = Some dbi\<close>
        show ?thesis by (simp add: unsubscribe_def Let_def)
      qed
    qed
  qed
qed

lemma fan_out_frame:
  "debounceInfo (fan_out obs ev s) = debounceInfo s"
  "timers (fan_out obs ev s) = timers s"
  "nextTimer (fan_out obs ev s) = nextTimer s"
  "calls (fan_out obs ev s) = calls s"
  "clock (fan_out obs ev s) = clock s"
  "defaultDelay (fan_out obs ev s) = defaultDelay s"
  "forwarded (fan_out obs ev s) = forwarded s"
  "unsubscribed (fan_out obs ev s) = unsubscribed s"
  by (simp_all add: fan_out_def)

lemma close_call_frame:
  "debounceInfo (close_call c s) = debounceInfo s"
  "timers (close_call c s) = timers s"
  "nextTimer (close_call c s) = nextTimer s"
  "clock (close_call c s) = clock s"
  "defaultDelay (close_call c s) = defaultDelay s"
  "forwarded (close_call c s) = forwarded s"
  "unsubscribed (close_call c s) = unsubscribed s"
  "delivered (close_call c s) = delivered s"
  "length (calls (close_call c s)) = length (calls s)"
  by (simp_all add: close_call_def)

lemma emit_inv:
  assumes i: "inv s"
  shows "inv (emit c ev s)"
proof (cases "c < length (calls s) \<and> \<not> c_closed (calls s ! c)")
  case False
  with i show ?thesis by (auto simp: emit_def)
next
  case True
  let ?cl = "calls s ! c"
  have f: "inv (fan_out (c_observers ?cl) ev s)"
    using i by (simp add: inv_cong[of "fan_out (c_observers ?cl) ev s" s] fan_out_frame)
  have cf: "inv (close_call c (fan_out (c_observers ?cl) ev s))"
    using i by (simp add: inv_cong[of "close_call c (fan_out (c_observers ?cl) ev s)" s]
        fan_out_frame close_call_frame)
  show ?thesis
    using True f cleanup_inv[OF cf] by (cases ev) (simp_all add: emit_def Let_def)
qed

lemma delay_of_frame [simp]:
  "delay_of dt (s\<lparr>debounceInfo := x\<rparr>) = delay_of dt s"
  "delay_of dt (s\<lparr>timers := y\<rparr>) = delay_of dt s"
  by (simp_all add: delay_of_def split: option.splits)

text \<open>When \<open>enqueueRequest\<close> throws, and what it changes when it returns.\<close>

lemma enqueueRequest_throws:
  "enqueueRequest k dt op fwd ob s = Inl e \<longleftrightarrow>
     e = TypeError \<and> map_of (debounceInfo s) k = None \<and> inherited k"
  by (cases e)
     (auto simp: enqueueRequest_def setupDebounceInfo_def setTimeout_def Let_def
       split: option.splits prod.splits)

lemma enqueueRequest_returns:
  assumes "map_of (debounceInfo s) k \<noteq> None \<or> \<not> inherited k"
  shows "\<exists>g s'. enqueueRequest k dt op fwd ob s = Inr (g, s')"
proof (cases "enqueueRequest k dt op fwd ob s")
  case (Inl e)
  with assms show ?thesis by (simp add: enqueueRequest_throws)
next
  case (Inr r)
  then show ?thesis by (cases r) simp
qed

lemma enqueueRequest_effect:
  fixes s k dt op fwd ob
  defines "dbi \<equiv> (case map_of (debounceInfo s) k of Some d \<Rightarrow> d | None \<Rightarrow> fresh_record)"
  assumes er: "enqueueRequest k dt op fwd ob s = Inr (g, s')"
  shows "map_of (debounceInfo s') =
      (map_of (debounceInfo s))
        (k \<mapsto> dbi\<lparr>queuedObservers := queuedObservers dbi @ [ob],
                   lastRequest := Some (op, fwd), timeout := Some (nextTimer s)\<rparr>)"
    and "timers s' = filter (\<lambda>tm. Some (fst tm) \<noteq> timeout dbi) (timers s)
             @ [(nextTimer s, clock s + delay_of dt s, k)]"
    and "nextTimer s' = Suc (nextTimer s)"
    and "calls s' = calls s" and "clock s' = clock s" and "defaultDelay s' = defaultDelay s"
    and "forwarded s' = forwarded s" and "unsubscribed s' = unsubscribed s"
    and "delivered s' = delivered s"
    and "g = currentGroupId dbi"
proof -
  have "map_of (debounceInfo s') =
      (map_of (debounceInfo s))
        (k \<mapsto> dbi\<lparr>queuedObservers := queuedObservers dbi @ [ob],
                   lastRequest := Some (op, fwd), timeout := Some (nextTimer s)\<rparr>) \<and>
    timers s' = filter (\<lambda>tm. Some (fst tm) \<noteq> timeout dbi) (timers s)
             @ [(nextTimer s, clock s + delay_of dt s, k)] \<and>
    nextTimer s' = Suc (nextTimer s) \<and>
    calls s' = calls s \<and> clock s' = clock s \<and> defaultDelay s' = defaultDelay s \<and>
    forwarded s' = forwarded s \<and> unsubscribed s' = unsubscribed s \<and>
    delivered s' = delivered s \<and>
    g = currentGroupId dbi"
  proof (cases "map_of (debounceInfo s) k")
    case None
    with er have ni: "\<not> inherited k"
      by (cases "inherited k") (simp_all add: enqueueRequest_def)
    with er None show ?thesis
      unfolding dbi_def fresh_record_def
      by (auto simp add: enqueueRequest_def setupDebounceInfo_def setTimeout_def
          Let_def update_conv')
  next
    case (Some d)
    with er show ?thesis
      unfolding dbi_def
      by (cases "timeout d")
         (auto simp add: enqueueRequest_def setTimeout_def clearTimeout_def
          Let_def update_conv')
  qed
  then show "map_of (debounceInfo s') =
      (map_of (debounceInfo s))
        (k \<mapsto> dbi\<lparr>queuedObservers := queuedObservers dbi @ [ob],
                   lastRequest := Some (op, fwd), timeout := Some (nextTimer s)\<rparr>)"
    and "timers s' = filter (\<lambda>tm. Some (fst tm) \<noteq> timeout dbi) (timers s)
             @ [(nextTimer s, clock s + delay_of dt s, k)]"
    and "nextTimer s' = Suc (nextTimer s)"
    and "calls s' = calls s" and "clock s' = clock s" and "defaultDelay s' = defaultDelay s"
    and "forwarded s' = forwarded s" and "unsubscribed s' = unsubscribed s"
    and "delivered s' = delivered s"
    and "g = currentGroupId dbi"
    by simp_all
qed

lemma enqueueRequest_inv:
  assumes i: "inv s" and er: "enqueueRequest k dt op fwd ob s = Inr (g0, s')"
  shows "inv s'"
proof -
  define dbi where "dbi = (case map_of (debounceInfo s) k of Some d \<Rightarrow> d | None \<Rightarrow> fresh_record)"
  define d2 where "d2 = dbi\<lparr>queuedObservers := queuedObservers dbi @ [ob],
                     lastRequest := Some (op, fwd), timeout := Some (nextTimer s)\<rparr>"
  note e = enqueueRequest_effect[OF er, folded dbi_def, folded d2_def]
  note G = e(1) and T = e(2) and N = e(3)
  have runs: "map_of (runningSubscriptions dbi) g = Some og \<Longrightarrow> g < currentGroupId dbi" for g og
    using invD_group[OF i, of k] unfolding dbi_def group_ok_def fresh_record_def
    by (auto split: option.splits)
  show "inv s'"
  proof (rule invI)
    fix k' d assume "map_of (debounceInfo s') k' = Some d"
    then have "((map_of (debounceInfo s))(k \<mapsto> d2)) k' = Some d"
      by (simp only: G)
    then consider "d = d2" | "map_of (debounceInfo s) k' = Some d"
      by (cases "k' = k") simp_all
    then show "group_ok d"
    proof cases
      case 1
      then show ?thesis using runs by (auto simp: group_ok_def d2_def)
    next
      case 2
      then show ?thesis by (rule invD_group[OF i])
    qed
  next
    have "nextTimer s \<notin> fst ` set (timers s)"
    proof
      assume "nextTimer s \<in> fst ` set (timers s)"
      then obtain due k' where "(nextTimer s, due, k') \<in> set (timers s)" by auto
      from invD_timer[OF i this] show False by simp
    qed
    then show "distinct (map fst (timers s'))"
      unfolding T using invD_distinct[OF i] by (auto simp: distinct_map_filter_fst)
  next
    fix i' due k' assume "(i', due, k') \<in> set (timers s')"
    then consider "i' = nextTimer s" "k' = k"
      | "(i', due, k') \<in> set (timers s)" "Some i' \<noteq> timeout dbi"
      unfolding T by auto
    then show "i' < nextTimer s' \<and> (\<exists>dbi. map_of (debounceInfo s') k' = Some dbi \<and>
             queuedObservers dbi \<noteq> [] \<and> timeout dbi = Some i')"
    proof cases
      case 1
      then show ?thesis unfolding G N by (simp add: d2_def)
    next
      case 2
      from invD_timer[OF i 2(1)] obtain d where d: "i' < nextTimer s"
        "map_of (debounceInfo s) k' = Some d" "queuedObservers d \<noteq> []" "timeout d = Some i'"
        by blast
      with 2(2) have "k' \<noteq> k" unfolding dbi_def by auto
      with d show ?thesis unfolding G N by simp
    qed
  qed
qed

lemma flush_inv:
  assumes i: "inv s" and nt: "\<And>i due. (i, due, k) \<notin> set (timers s)"
    and f: "flush k s = Inr s'"
  shows "inv s'"
proof -
  from f obtain dbi where g: "map_of (debounceInfo s) k = Some dbi"
    by (auto simp: flush_def split: option.splits)
  show ?thesis
  proof (cases "lastRequest dbi = None \<or> queuedObservers dbi = []")
    case True
    with f g have "s' = s" by (auto simp: flush_def split: option.splits)
    with i show ?thesis by simp
  next
    case False
    then obtain op fwd where lr: "lastRequest dbi = Some (op, fwd)" by auto
    let ?d = "dbi\<lparr>runningSubscriptions :=
                 AList.update (currentGroupId dbi)
                   \<lparr>observers = queuedObservers dbi, subscription = length (calls s)\<rparr>
                   (runningSubscriptions dbi),
               queuedObservers := [], currentGroupId := Suc (currentGroupId dbi)\<rparr>"
    from f g lr False have s': "debounceInfo s' = AList.update k ?d (debounceInfo s)"
      "timers s' = timers s" "nextTimer s' = nextTimer s"
      by (auto simp: flush_def forward_subscribe_def Let_def)
    have gok: "group_ok ?d"
      using invD_group[OF i g] unfolding group_ok_def
      by (auto dest!: map_of_update_Some simp: less_Suc_eq)
    show ?thesis
    proof (rule invI)
      fix k' dbi' assume "map_of (debounceInfo s') k' = Some dbi'"
      then show "group_ok dbi'"
        using gok invD_group[OF i, of k' dbi'] by (auto simp: s' update_conv' split: if_splits)
    next
      show "distinct (map fst (timers s'))" unfolding s' by (rule invD_distinct[OF i])
    next
      fix i' due k' assume "(i', due, k') \<in> set (timers s')"
      then have a: "(i', due, k') \<in> set (timers s)" by (simp add: s')
      with nt have "k' \<noteq> k" by auto
      with invD_timer[OF i a]
      show "i' < nextTimer s' \<and> (\<exists>dbi. map_of (debounceInfo s') k' = Some dbi \<and>
             queuedObservers dbi \<noteq> [] \<and> timeout dbi = Some i')"
        unfolding s' update_conv' by auto
    qed
  qed
qed

lemma flush_present:
  "map_of (debounceInfo s) k = Some dbi \<Longrightarrow> \<exists>s'. flush k s = Inr s'"
  by (auto simp: flush_def Let_def split: option.splits prod.splits)

lemma inv_fire:
  assumes i: "inv s" and e: "earliest (timers s) = Some tm"
  defines "s1 \<equiv> s\<lparr>clock := max (clock s) (fst (snd tm)),
                    timers := filter (\<lambda>x. fst x \<noteq> fst tm) (timers s)\<rparr>"
  shows "inv s1" and "\<And>i due. (i, due, snd (snd tm)) \<notin> set (timers s1)"
    and "\<exists>dbi. map_of (debounceInfo s1) (snd (snd tm)) = Some dbi \<and> queuedObservers dbi \<noteq> []"
proof -
  obtain i0 due0 k0 where tm: "tm = (i0, due0, k0)" by (cases tm)
  from earliest_mem[OF e] have mem: "(i0, due0, k0) \<in> set (timers s)" by (simp add: tm)
  from invD_timer[OF i mem] obtain dbi where d: "map_of (debounceInfo s) k0 = Some dbi"
    "queuedObservers dbi \<noteq> []" "timeout dbi = Some i0" by blast
  show "inv s1"
  proof (rule invI)
    fix k d assume "map_of (debounceInfo s1) k = Some d"
    then show "group_ok d" using invD_group[OF i, of k d] by (simp add: s1_def)
  next
    show "distinct (map fst (timers s1))"
      using invD_distinct[OF i] by (simp add: s1_def distinct_map_filter_fst)
  next
    fix i' due k assume "(i', due, k) \<in> set (timers s1)"
    then have "(i', due, k) \<in> set (timers s)" by (simp add: s1_def)
    from invD_timer[OF i this]
    show "i' < nextTimer s1 \<and> (\<exists>dbi. map_of (debounceInfo s1) k = Some dbi \<and>
             queuedObservers dbi \<noteq> [] \<and> timeout dbi = Some i')"
      by (simp add: s1_def)
  qed
  show "(i', due, snd (snd tm)) \<notin> set (timers s1)" for i' due
  proof
    assume "(i', due, snd (snd tm)) \<in> set (timers s1)"
    then have a: "(i', due, k0) \<in> set (timers s)" "i' \<noteq> i0" by (simp_all add: s1_def tm)
    from invD_timer[OF i a(1)] d a(2) show False by auto
  qed
  show "\<exists>dbi. map_of (debounceInfo s1) (snd (snd tm)) = Some dbi \<and> queuedObservers dbi \<noteq> []"
    using d by (simp add: s1_def tm)
qed

lemma run_timers_to_inv:
  "inv s \<Longrightarrow> \<exists>s'. run_timers_to t s = Inr s' \<and> inv s'"
proof (induction t s rule: run_timers_to.induct)
  case (1 t s)
  show ?case
  proof (cases "earliest (timers s)")
    case None
    have "inv (s\<lparr>clock := max (clock s) t\<rparr>)"
      using "1.prems" by (simp add: inv_cong[of "s\<lparr>clock := max (clock s) t\<rparr>" s])
    with None show ?thesis by (simp add: run_timers_to.simps)
  next
    case (Some tm)
    show ?thesis
    proof (cases "fst (snd tm) \<le> t")
      case False
      have "inv (s\<lparr>clock := max (clock s) t\<rparr>)"
        using "1.prems" by (simp add: inv_cong[of "s\<lparr>clock := max (clock s) t\<rparr>" s])
      with Some False show ?thesis by (simp add: run_timers_to.simps)
    next
      case True
      let ?s1 = "s\<lparr>clock := max (clock s) (fst (snd tm)),
                    timers := filter (\<lambda>x. fst x \<noteq> fst tm) (timers s)\<rparr>"
      note f = inv_fire[OF "1.prems" Some]
      from f(3) obtain dbi where "map_of (debounceInfo ?s1) (snd (snd tm)) = Some dbi" by blast
      from flush_present[OF this] obtain s2 where s2: "flush (snd (snd tm)) ?s1 = Inr s2" by blast
      from flush_inv[OF f(1) f(2) s2] have "inv s2" .
      from "1.IH"[OF Some True s2 this] obtain s' where "run_timers_to t s2 = Inr s'" "inv s'"
        by blast
      with Some True s2 show ?thesis by (subst run_timers_to.simps) simp
    qed
  qed
qed

lemma request_subscribe_inv:
  assumes i: "inv s"
    and sub: "subscribe (fst (request op fwd s)) ob (snd (request op fwd s)) = Inr (h, s')"
  shows "inv s'"
proof (cases "debounceKey op = None \<or> debounceKey op = Some []")
  case True
  then have "request op fwd s =
         (Forwarded (length (forwarded s)), s\<lparr>forwarded := forwarded s @ [(op, fwd)]\<rparr>)"
    by (auto simp: request_def)
  with sub have "s' = s\<lparr>forwarded := forwarded s @ [(op, fwd)]\<rparr>"
    by (simp add: subscribe_def)
  then show ?thesis using i
    by (simp add: inv_cong[of "s\<lparr>forwarded := forwarded s @ [(op, fwd)]\<rparr>" s])
next
  case False
  then obtain k where k: "debounceKey op = Some k" "k \<noteq> []" by auto
  then have "request op fwd s = (Debounced k (debounceTimeout op) op fwd, s)"
    by (simp add: request_def)
  with sub obtain g where "enqueueRequest k (debounceTimeout op) op fwd ob s = Inr (g, s')"
    by (auto simp: subscribe_def split: sum.splits)
  then show ?thesis by (rule enqueueRequest_inv[OF i])
qed

lemma step_Execute:
  "step (Execute op fwd ob) s = Inr s' \<longleftrightarrow>
     (\<exists>h. subscribe (fst (request op fwd s)) ob (snd (request op fwd s)) = Inr (h, s'))"
  by (auto split: prod.splits sum.splits)

lemma step_inv: "inv s \<Longrightarrow> step e s = Inr s' \<Longrightarrow> inv s'"
proof (cases e)
  case (Execute op fwd ob)
  assume "inv s" "step e s = Inr s'"
  then show ?thesis using request_subscribe_inv[of s op fwd ob] Execute
    by (auto simp only: step_Execute)
next
  case (Cancel k g ob)
  assume "inv s" "step e s = Inr s'"
  then show ?thesis using unsubscribe_inv[of s k g ob] Cancel by auto
next
  case (RunTimersTo t)
  assume "inv s" "step e s = Inr s'"
  then show ?thesis using run_timers_to_inv[of s t] RunTimersTo by auto
next
  case (Emit c ev)
  assume "inv s" "step e s = Inr s'"
  then show ?thesis using emit_inv[of s c ev] Emit by auto
qed

lemma reachable_inv: "reachable s \<Longrightarrow> inv s"
  by (induction rule: reachable.induct) (auto intro: inv_new_link step_inv)

section \<open>Runs of stimuli\<close>

lemma reachable_steps: "reachable s \<Longrightarrow> steps es s = Inr s' \<Longrightarrow> reachable s'"
  by (induction es arbitrary: s) (auto split: sum.splits intro: reachable.step)


lemmas eval_defs = new_link_def request_def subscribe_def enqueueRequest_def
  setupDebounceInfo_def setTimeout_def clearTimeout_def delay_of_def flush_def
  forward_subscribe_def cleanup_def unsubscribe_def emit_def fan_out_def close_call_def
  subscription_unsubscribe_def run_timers_to.simps Let_def ex_op_def ex_ob_def
  inherited_def object_prototype_names_def

lemma ex_running_run:
  "steps [Execute (ex_op 1) 0 (ex_ob 1), Execute (ex_op 2) 0 (ex_ob 2), RunTimersTo 500]
     (new_link 500) = Inr ex_running"
  by (simp add: eval_defs ex_running_def)

lemma ex_running_reachable: "reachable ex_running"
  by (rule reachable_steps[OF reachable.init ex_running_run])



section \<open>Cancellation and fan-out\<close>

lemma clearTimeout_idem: "clearTimeout h (clearTimeout h s) = clearTimeout h s"
  by (cases h) (simp_all add: clearTimeout_def)

lemma unsubscribe_absent: "map_of (debounceInfo s) k = None \<Longrightarrow> unsubscribe k g ob s = s"
  by (simp add: unsubscribe_def)

lemma unsubscribe_twice: "unsubscribe k g ob (unsubscribe k g ob s) = unsubscribe k g ob s"
proof (cases "map_of (debounceInfo s) k")
  case None
  then show ?thesis by (simp add: unsubscribe_def)
next
  case (Some dbi)
  show ?thesis
  proof (cases "g = currentGroupId dbi")
    case True
    show ?thesis
    proof (cases "filter (\<lambda>obs. obs \<noteq> ob) (queuedObservers dbi) = []")
      case empty: True
      show ?thesis
      proof (cases "AList.delete g (runningSubscriptions dbi) = []")
        case True
        with Some empty \<open>g = currentGroupId dbi\<close> show ?thesis
          by (simp add: unsubscribe_def cleanup_def Let_def update_conv' delete_conv'
              clearTimeout_def split: option.splits)
      next
        case False
        with Some empty \<open>g = currentGroupId dbi\<close> show ?thesis
          by (cases "timeout dbi")
            (simp_all add: unsubscribe_def cleanup_def Let_def update_conv' delete_idem
              clearTimeout_def)
      qed
    next
      case False
      with Some True show ?thesis
        by (simp add: unsubscribe_def Let_def update_conv')
    qed
  next
    case False
    show ?thesis
    proof (cases "map_of (runningSubscriptions dbi) g")
      case None
      with Some False show ?thesis by (simp add: unsubscribe_def)
    next
      case og: (Some og)
      show ?thesis
      proof (cases "filter (\<lambda>obs. obs \<noteq> ob) (observers og) = []")
        case empty: True
        show ?thesis
        proof (cases "AList.delete g (runningSubscriptions dbi) = [] \<and> queuedObservers dbi = []")
          case True
          with Some False og empty show ?thesis
            by (simp add: unsubscribe_def cleanup_def Let_def update_conv' delete_conv'
                subscription_unsubscribe_def close_call_def delete_update_same)
        next
          case nd: False
          with Some False og empty show ?thesis
            by (auto simp add: unsubscribe_def cleanup_def Let_def update_conv' delete_conv'
                subscription_unsubscribe_def close_call_def delete_update_same)
        qed
      next
        case ne: False
        with Some False og show ?thesis
          by (simp add: unsubscribe_def Let_def update_conv')
      qed
    qed
  qed
qed

lemma running_below_current:
  "inv s \<Longrightarrow> map_of (debounceInfo s) k = Some dbi \<Longrightarrow>
   map_of (runningSubscriptions dbi) g = Some og \<Longrightarrow> g < currentGroupId dbi"
  by (auto dest!: invD_group simp: group_ok_def)


lemma unsubscribe_running_others:
  assumes "map_of (debounceInfo s) k = Some dbi" "g \<noteq> currentGroupId dbi"
    "map_of (runningSubscriptions dbi) g = Some og"
    "filter (\<lambda>obs. obs \<noteq> ob) (observers og) \<noteq> []"
  shows "unsubscribe k g ob s =
       s\<lparr>debounceInfo := AList.update k
            (dbi\<lparr>runningSubscriptions :=
                AList.update g (og\<lparr>observers := filter (\<lambda>obs. obs \<noteq> ob) (observers og)\<rparr>)
                  (runningSubscriptions dbi)\<rparr>)
            (debounceInfo s)\<rparr>"
  using assms by (simp add: unsubscribe_def Let_def)


lemma emit_closed: "\<not> (c < length (calls s) \<and> \<not> c_closed (calls s ! c)) \<Longrightarrow> emit c ev s = s"
  by (auto simp: emit_def)

lemma emits_closed:
  "\<not> (c < length (calls s) \<and> \<not> c_closed (calls s ! c)) \<Longrightarrow> emits c evs s = s"
  unfolding emits_def by (induction evs) (simp_all add: emit_closed)

lemma emit_Next:
  "c < length (calls s) \<Longrightarrow> \<not> c_closed (calls s ! c) \<Longrightarrow>
   emit c (Next v) s = fan_out (c_observers (calls s ! c)) (Next v) s"
  by (simp add: emit_def Let_def)

lemma emit_terminal:
  "c < length (calls s) \<Longrightarrow> \<not> c_closed (calls s ! c) \<Longrightarrow> ev = Error e \<or> ev = Complete \<Longrightarrow>
   emit c ev s = cleanup (c_key (calls s ! c)) (c_groupId (calls s ! c))
                   (close_call c (fan_out (c_observers (calls s ! c)) ev s))"
  by (auto simp: emit_def Let_def)

lemma emits_delivered:
  "c < length (calls s) \<Longrightarrow> \<not> c_closed (calls s ! c) \<Longrightarrow>
   delivered (emits c evs s) =
     delivered s @ deliveries (c_observers (calls s ! c)) (accepted evs)"
proof (induction evs arbitrary: s)
  case Nil
  then show ?case by (simp add: emits_def deliveries_def)
next
  case (Cons ev evs)
  have step: "emits c (ev # evs) s = emits c evs (emit c ev s)" by (simp add: emits_def)
  show ?case
  proof (cases ev)
    case (Next v)
    let ?s1 = "fan_out (c_observers (calls s ! c)) (Next v) s"
    have e: "emit c ev s = ?s1" using Cons.prems Next by (simp add: emit_Next)
    have "delivered (emits c evs ?s1) =
        delivered ?s1 @ deliveries (c_observers (calls ?s1 ! c)) (accepted evs)"
      by (rule Cons.IH) (use Cons.prems in \<open>simp_all add: fan_out_frame\<close>)
    then show ?thesis unfolding step e using Next
      by (simp add: fan_out_frame) (simp add: fan_out_def deliveries_def)
  next
    case (Error x)
    let ?s1 = "cleanup (c_key (calls s ! c)) (c_groupId (calls s ! c))
                   (close_call c (fan_out (c_observers (calls s ! c)) ev s))"
    have e: "emit c ev s = ?s1" using Cons.prems Error by (simp add: emit_terminal)
    have "c_closed (calls ?s1 ! c)"
      using Cons.prems by (simp add: cleanup_frame close_call_def fan_out_frame)
    then have "emits c evs ?s1 = ?s1" by (simp add: emits_closed)
    then show ?thesis unfolding step e using Error
      by (simp add: cleanup_frame close_call_frame) (simp add: fan_out_def deliveries_def)
  next
    case Complete
    let ?s1 = "cleanup (c_key (calls s ! c)) (c_groupId (calls s ! c))
                   (close_call c (fan_out (c_observers (calls s ! c)) ev s))"
    have e: "emit c ev s = ?s1" using Cons.prems Complete by (simp add: emit_terminal)
    have "c_closed (calls ?s1 ! c)"
      using Cons.prems by (simp add: cleanup_frame close_call_def fan_out_frame)
    then have "emits c evs ?s1 = ?s1" by (simp add: emits_closed)
    then show ?thesis unfolding step e using Complete
      by (simp add: cleanup_frame close_call_frame) (simp add: fan_out_def deliveries_def)
  qed
qed

lemma deliveries_mem:
  "ob \<in> set obs \<Longrightarrow> ev \<in> set evs \<Longrightarrow> handles ob ev \<Longrightarrow> (ob, ev) \<in> set (deliveries obs evs)"
  by (auto simp: deliveries_def)




section \<open>Where records are deleted\<close>

lemma keeps_records_trans: "keeps_records s s1 \<Longrightarrow> keeps_records s1 s2 \<Longrightarrow> keeps_records s s2"
  by (simp add: keeps_records_def)

lemma enqueueRequest_keeps:
  assumes "enqueueRequest k dt op fwd ob s = Inr (g, s')"
  shows "keeps_records s s'"
  by (simp add: keeps_records_def enqueueRequest_effect(1)[OF assms])

lemma flush_keeps: "flush k s = Inr s' \<Longrightarrow> keeps_records s s'"
  by (auto simp: flush_def forward_subscribe_def Let_def keeps_records_def update_conv'
      split: option.splits if_splits)

lemma run_timers_to_keeps: "run_timers_to t s = Inr s' \<Longrightarrow> keeps_records s s'"
proof (induction t s arbitrary: s' rule: run_timers_to.induct)
  case (1 t s)
  show ?case
  proof (cases "earliest (timers s)")
    case None
    with "1.prems" show ?thesis
      by (auto simp: run_timers_to.simps keeps_records_def)
  next
    case (Some tm)
    show ?thesis
    proof (cases "fst (snd tm) \<le> t")
      case False
      with Some "1.prems" show ?thesis
        by (auto simp: run_timers_to.simps keeps_records_def)
    next
      case True
      let ?s1 = "s\<lparr>clock := max (clock s) (fst (snd tm)),
                    timers := filter (\<lambda>x. fst x \<noteq> fst tm) (timers s)\<rparr>"
      from "1.prems" Some True obtain s2 where s2: "flush (snd (snd tm)) ?s1 = Inr s2"
        and r: "run_timers_to t s2 = Inr s'"
        by (subst (asm) run_timers_to.simps) (auto split: sum.splits)
      have "keeps_records s ?s1" by (simp add: keeps_records_def)
      moreover have "keeps_records ?s1 s2" by (rule flush_keeps[OF s2])
      moreover have "keeps_records s2 s'" by (rule "1.IH"[OF Some True s2 r])
      ultimately show ?thesis by (blast intro: keeps_records_trans)
    qed
  qed
qed

lemma step_Execute_keeps:
  assumes "step (Execute op fwd ob) s = Inr s'"
  shows "keeps_records s s'"
proof (cases "debounceKey op = None \<or> debounceKey op = Some []")
  case True
  with assms show ?thesis
    by (auto simp: request_def subscribe_def keeps_records_def)
next
  case False
  then obtain k where k: "debounceKey op = Some k" "k \<noteq> []" by auto
  then have "request op fwd s = (Debounced k (debounceTimeout op) op fwd, s)"
    by (simp add: request_def)
  with assms obtain g where "enqueueRequest k (debounceTimeout op) op fwd ob s = Inr (g, s')"
    by (auto simp: subscribe_def split: sum.splits)
  then show ?thesis by (rule enqueueRequest_keeps)
qed

lemma cleanup_deletes_iff:
  assumes "map_of (debounceInfo s) k = Some dbi"
  shows "(map_of (debounceInfo (cleanup k g s)) k = None) =
           (AList.delete g (runningSubscriptions dbi) = [] \<and> queuedObservers dbi = [])"
    and "k' \<noteq> k \<Longrightarrow> map_of (debounceInfo (cleanup k g s)) k' = map_of (debounceInfo s) k'"
  unfolding cleanup_groups[OF assms] by simp_all

lemma cleanup_other:
  "k' \<noteq> k \<Longrightarrow> map_of (debounceInfo (cleanup k' g s)) k = map_of (debounceInfo s) k"
proof (cases "map_of (debounceInfo s) k'")
  case None
  then show ?thesis by (simp add: cleanup_absent)
next
  case (Some d)
  assume "k' \<noteq> k"
  then show ?thesis by (simp add: cleanup_groups[OF Some])
qed

text \<open>Which cancellations delete the record of a key.\<close>

lemma unsubscribe_deletes_iff:
  assumes dbi: "map_of (debounceInfo s) k = Some dbi"
  shows "map_of (debounceInfo (unsubscribe k' g ob s)) k = None \<longleftrightarrow>
     k' = k \<and> AList.delete g (runningSubscriptions dbi) = [] \<and>
     (if g = currentGroupId dbi
      then filter (\<lambda>x. x \<noteq> ob) (queuedObservers dbi) = []
      else queuedObservers dbi = [] \<and>
           (\<exists>og. map_of (runningSubscriptions dbi) g = Some og \<and>
                 filter (\<lambda>x. x \<noteq> ob) (observers og) = []))"
proof (cases "k' = k")
  case other: False
  have "map_of (debounceInfo (unsubscribe k' g ob s)) k = map_of (debounceInfo s) k"
  proof (cases "map_of (debounceInfo s) k'")
    case None
    then show ?thesis by (simp add: unsubscribe_def)
  next
    case (Some d)
    show ?thesis
    proof (cases "g = currentGroupId d")
      case True
      with Some other show ?thesis
        by (simp add: unsubscribe_def Let_def cleanup_other update_conv')
    next
      case False
      show ?thesis
      proof (cases "map_of (runningSubscriptions d) g")
        case None
        with Some False show ?thesis by (simp add: unsubscribe_def)
      next
        case og: (Some og)
        with Some False other show ?thesis
          by (simp add: unsubscribe_def Let_def cleanup_other update_conv'
              subscription_unsubscribe_frame)
      qed
    qed
  qed
  with dbi other show ?thesis by simp
next
  case same: True
  show ?thesis
  proof (cases "g = currentGroupId dbi")
    case True
    let ?d1 = "dbi\<lparr>queuedObservers := filter (\<lambda>obs. obs \<noteq> ob) (queuedObservers dbi)\<rparr>"
    let ?s1 = "s\<lparr>debounceInfo := AList.update k ?d1 (debounceInfo s)\<rparr>"
    have g1: "map_of (debounceInfo ?s1) k = Some ?d1" by (simp add: update_conv')
    have u: "unsubscribe k g ob s =
        (if filter (\<lambda>obs. obs \<noteq> ob) (queuedObservers dbi) = [] then cleanup k g ?s1 else ?s1)"
      using dbi True by (simp add: unsubscribe_def Let_def)
    show ?thesis
    proof (cases "filter (\<lambda>obs. obs \<noteq> ob) (queuedObservers dbi) = []")
      case e: True
      from cleanup_deletes_iff(1)[OF g1, of g] e True show ?thesis
        unfolding same u by simp
    next
      case ne: False
      with True show ?thesis
        unfolding same u by (simp add: update_conv')
    qed
  next
    case False
    show ?thesis
    proof (cases "map_of (runningSubscriptions dbi) g")
      case None
      with dbi False same show ?thesis by (simp add: unsubscribe_def)
    next
      case og: (Some og)
      let ?og1 = "og\<lparr>observers := filter (\<lambda>obs. obs \<noteq> ob) (observers og)\<rparr>"
      let ?d1 = "dbi\<lparr>runningSubscriptions := AList.update g ?og1 (runningSubscriptions dbi)\<rparr>"
      let ?s1 = "s\<lparr>debounceInfo := AList.update k ?d1 (debounceInfo s)\<rparr>"
      let ?s2 = "subscription_unsubscribe (subscription og) ?s1"
      have g2: "map_of (debounceInfo ?s2) k = Some ?d1"
        by (simp add: subscription_unsubscribe_frame update_conv')
      have u: "unsubscribe k g ob s =
          (if filter (\<lambda>obs. obs \<noteq> ob) (observers og) = [] then cleanup k g ?s2 else ?s1)"
        using dbi False og by (simp add: unsubscribe_def Let_def)
      show ?thesis
      proof (cases "filter (\<lambda>obs. obs \<noteq> ob) (observers og) = []")
        case e: True
        from cleanup_deletes_iff(1)[OF g2, of g] e False og show ?thesis
          unfolding same u by (simp add: delete_update_same)
      next
        case ne: False
        with False og show ?thesis
          unfolding same u by (simp add: update_conv')
      qed
    qed
  qed
qed

text \<open>Which downstream events delete the record of a key.\<close>

lemma emit_deletes_iff:
  assumes dbi: "map_of (debounceInfo s) k = Some dbi"
  shows "map_of (debounceInfo (emit c ev s)) k = None \<longleftrightarrow>
     c < length (calls s) \<and> \<not> c_closed (calls s ! c) \<and> (\<forall>v. ev \<noteq> Next v) \<and>
     c_key (calls s ! c) = k \<and>
     AList.delete (c_groupId (calls s ! c)) (runningSubscriptions dbi) = [] \<and>
     queuedObservers dbi = []"
proof (cases "c < length (calls s) \<and> \<not> c_closed (calls s ! c)")
  case False
  then have "emit c ev s = s" by (rule emit_closed)
  with dbi False show ?thesis by auto
next
  case True
  let ?s1 = "close_call c (fan_out (c_observers (calls s ! c)) ev s)"
  have g1: "map_of (debounceInfo ?s1) k = Some dbi"
    using dbi by (simp add: fan_out_frame close_call_frame)
  show ?thesis
  proof (cases "\<exists>v. ev = Next v")
    case True
    then obtain v where "ev = Next v" by blast
    with \<open>c < length (calls s) \<and> \<not> c_closed (calls s ! c)\<close> dbi show ?thesis
      by (simp add: emit_Next fan_out_frame)
  next
    case False
    then have ev: "ev = Error (case ev of Error e \<Rightarrow> e | _ \<Rightarrow> 0) \<or> ev = Complete"
      by (cases ev) simp_all
    have e: "emit c ev s = cleanup (c_key (calls s ! c)) (c_groupId (calls s ! c)) ?s1"
      using True ev by (intro emit_terminal) simp_all
    show ?thesis
    proof (cases "c_key (calls s ! c) = k")
      case same: True
      show ?thesis unfolding e same using True False
        by (simp add: cleanup_groups[OF g1])
    next
      case other: False
      then show ?thesis unfolding e using g1 by (simp add: cleanup_other)
    qed
  qed
qed

text \<open>
  Which stimuli delete the record of a key: a cancellation for that key, or the error or
  the completion of one of its downstream calls; and for the generation \<open>g\<close> the
  stimulus concerns, exactly when the record has no other running generation and its
  queue, the cancelling observer taken out of it, is empty.
\<close>

lemma step_deletes_iff:
  assumes st: "step e s = Inr s'" and dbi: "map_of (debounceInfo s) k = Some dbi"
  shows "map_of (debounceInfo s') k = None \<longleftrightarrow>
     (\<exists>g. AList.delete g (runningSubscriptions dbi) = [] \<and>
        ((\<exists>ob. e = Cancel k g ob \<and>
            (if g = currentGroupId dbi
             then filter (\<lambda>x. x \<noteq> ob) (queuedObservers dbi) = []
             else queuedObservers dbi = [] \<and>
                  (\<exists>og. map_of (runningSubscriptions dbi) g = Some og \<and>
                        filter (\<lambda>x. x \<noteq> ob) (observers og) = []))) \<or>
         (\<exists>c ev. e = Emit c ev \<and> c < length (calls s) \<and> \<not> c_closed (calls s ! c) \<and>
            (\<forall>v. ev \<noteq> Next v) \<and> c_key (calls s ! c) = k \<and>
            c_groupId (calls s ! c) = g \<and> queuedObservers dbi = [])))"
proof (cases e)
  case (Execute op fwd ob)
  with st have "keeps_records s s'" by (auto intro: step_Execute_keeps)
  with dbi Execute show ?thesis by (auto simp: keeps_records_def)
next
  case (RunTimersTo t)
  with st have "keeps_records s s'" by (auto intro: run_timers_to_keeps)
  with dbi RunTimersTo show ?thesis by (auto simp: keeps_records_def)
next
  case (Cancel k' g ob)
  with st have s': "s' = unsubscribe k' g ob s" by simp
  show ?thesis
    unfolding s' unsubscribe_deletes_iff[OF dbi] Cancel by auto
next
  case (Emit c ev)
  with st have s': "s' = emit c ev s" by simp
  show ?thesis
    unfolding s' emit_deletes_iff[OF dbi] Emit by auto
qed

lemma reachable_not_idle:
  "reachable s \<Longrightarrow> map_of (debounceInfo s) k = Some dbi \<Longrightarrow>
   queuedObservers dbi \<noteq> [] \<or> runningSubscriptions dbi \<noteq> []"
  by (auto dest!: reachable_inv invD_group simp: group_ok_def)

section \<open>How generation identifiers advance\<close>

lemma filter_map_list_update:
  "i < length xs \<Longrightarrow> P y = P (xs ! i) \<Longrightarrow> f y = f (xs ! i) \<Longrightarrow>
   map f (filter P (xs[i := y])) = map f (filter P xs)"
proof (induction xs arbitrary: i)
  case Nil
  then show ?case by simp
next
  case (Cons x xs)
  then show ?case by (cases i) auto
qed

lemma generations_close_call: "generations k (close_call c s) = generations k s"
  by (simp add: generations_def close_call_def filter_map_list_update)

lemma generations_cleanup: "generations k (cleanup k' g s) = generations k s"
  by (simp add: generations_def cleanup_frame)

lemma live_generation_cleanup:
  "map_of (debounceInfo (cleanup k' g s)) k \<noteq> None \<Longrightarrow>
   live_generation k (cleanup k' g s) = live_generation k s"
proof (cases "map_of (debounceInfo s) k'")
  case None
  then show ?thesis by (simp add: cleanup_absent)
next
  case (Some dbi)
  assume "map_of (debounceInfo (cleanup k' g s)) k \<noteq> None"
  then show ?thesis
    using Some unfolding live_generation_def cleanup_groups[OF Some]
    by (auto split: if_splits)
qed

lemma upt_chain: "a \<le> b \<Longrightarrow> b \<le> c \<Longrightarrow> [a..<b] @ [b..<c] = [a..<(c::nat)]"
  by (metis le_Suc_ex upt_add_eq_append)

lemma flush_generations:
  assumes "flush k' s = Inr s'"
  shows "live_generation k s \<le> live_generation k s' \<and>
         generations k s' = generations k s @ [live_generation k s ..< live_generation k s']"
proof -
  from assms obtain dbi where g: "map_of (debounceInfo s) k' = Some dbi"
    by (auto simp: flush_def split: option.splits)
  show ?thesis
  proof (cases "lastRequest dbi = None \<or> queuedObservers dbi = []")
    case True
    with assms g have "s' = s" by (auto simp: flush_def split: option.splits)
    then show ?thesis by simp
  next
    case False
    then obtain op fwd where lr: "lastRequest dbi = Some (op, fwd)" by auto
    let ?d = "dbi\<lparr>runningSubscriptions :=
                 AList.update (currentGroupId dbi)
                   \<lparr>observers = queuedObservers dbi, subscription = length (calls s)\<rparr>
                   (runningSubscriptions dbi),
               queuedObservers := [], currentGroupId := Suc (currentGroupId dbi)\<rparr>"
    from assms g lr False have s': "debounceInfo s' = AList.update k' ?d (debounceInfo s)"
      "calls s' = calls s @
        [\<lparr>c_operation = op, c_forward = fwd, c_key = k', c_groupId = currentGroupId dbi,
          c_observers = queuedObservers dbi, c_closed = False\<rparr>]"
      by (auto simp: flush_def forward_subscribe_def Let_def)
    show ?thesis
      using g by (cases "k' = k") (simp_all add: live_generation_def generations_def s' update_conv')
  qed
qed

lemma run_timers_to_generations:
  "run_timers_to t s = Inr s' \<Longrightarrow>
   live_generation k s \<le> live_generation k s' \<and>
   generations k s' = generations k s @ [live_generation k s ..< live_generation k s']"
proof (induction t s arbitrary: s' rule: run_timers_to.induct)
  case (1 t s)
  show ?case
  proof (cases "earliest (timers s)")
    case None
    with "1.prems" show ?thesis
      by (auto simp: run_timers_to.simps live_generation_def generations_def)
  next
    case (Some tm)
    show ?thesis
    proof (cases "fst (snd tm) \<le> t")
      case False
      with Some "1.prems" show ?thesis
        by (auto simp: run_timers_to.simps live_generation_def generations_def)
    next
      case True
      let ?s1 = "s\<lparr>clock := max (clock s) (fst (snd tm)),
                    timers := filter (\<lambda>x. fst x \<noteq> fst tm) (timers s)\<rparr>"
      from "1.prems" Some True obtain s2 where s2: "flush (snd (snd tm)) ?s1 = Inr s2"
        and r: "run_timers_to t s2 = Inr s'"
        by (subst (asm) run_timers_to.simps) (auto split: sum.splits)
      have a: "live_generation k ?s1 = live_generation k s" "generations k ?s1 = generations k s"
        by (simp_all add: live_generation_def generations_def)
      note b = flush_generations[OF s2, of k]
      note c = "1.IH"[OF Some True s2 r]
      from a b c show ?thesis by (simp add: upt_chain)
    qed
  qed
qed

lemma subscription_unsubscribe_generations:
  "generations k (subscription_unsubscribe c s) = generations k s"
  by (simp add: subscription_unsubscribe_def generations_close_call)
     (simp add: generations_def)

lemma unsubscribe_generations: "generations k (unsubscribe k' g ob s) = generations k s"
proof -
  have "\<exists>s1. generations k s1 = generations k s \<and>
       (unsubscribe k' g ob s = s1 \<or> unsubscribe k' g ob s = cleanup k' g s1)"
  proof (cases "map_of (debounceInfo s) k'")
    case None
    then show ?thesis by (auto simp: unsubscribe_def)
  next
    case (Some dbi)
    show ?thesis
    proof (cases "g = currentGroupId dbi")
      case True
      let ?s1 = "s\<lparr>debounceInfo := AList.update k'
        (dbi\<lparr>queuedObservers := filter (\<lambda>obs. obs \<noteq> ob) (queuedObservers dbi)\<rparr>) (debounceInfo s)\<rparr>"
      have "generations k ?s1 = generations k s" by (simp add: generations_def)
      moreover have "unsubscribe k' g ob s = ?s1 \<or> unsubscribe k' g ob s = cleanup k' g ?s1"
        using Some True by (simp add: unsubscribe_def Let_def)
      ultimately show ?thesis by blast
    next
      case False
      show ?thesis
      proof (cases "map_of (runningSubscriptions dbi) g")
        case None
        with Some False show ?thesis by (auto simp: unsubscribe_def)
      next
        case og: (Some og)
        let ?s1 = "s\<lparr>debounceInfo := AList.update k'
            (dbi\<lparr>runningSubscriptions :=
                AList.update g (og\<lparr>observers := filter (\<lambda>obs. obs \<noteq> ob) (observers og)\<rparr>)
                  (runningSubscriptions dbi)\<rparr>)
            (debounceInfo s)\<rparr>"
        have a: "generations k ?s1 = generations k s" by (simp add: generations_def)
        have b: "generations k (subscription_unsubscribe (subscription og) ?s1) = generations k s"
          by (simp add: subscription_unsubscribe_generations) (simp add: generations_def)
        have "unsubscribe k' g ob s = ?s1 \<or>
          unsubscribe k' g ob s = cleanup k' g (subscription_unsubscribe (subscription og) ?s1)"
          using Some False og by (simp add: unsubscribe_def Let_def)
        with a b show ?thesis by blast
      qed
    qed
  qed
  then show ?thesis by (auto simp: generations_cleanup)
qed

lemma unsubscribe_live_generation:
  assumes "map_of (debounceInfo (unsubscribe k' g ob s)) k \<noteq> None"
  shows "live_generation k (unsubscribe k' g ob s) = live_generation k s"
proof -
  have "\<exists>s1. live_generation k s1 = live_generation k s \<and>
       (unsubscribe k' g ob s = s1 \<or> unsubscribe k' g ob s = cleanup k' g s1)"
  proof (cases "map_of (debounceInfo s) k'")
    case None
    then show ?thesis by (auto simp: unsubscribe_def)
  next
    case (Some dbi)
    show ?thesis
    proof (cases "g = currentGroupId dbi")
      case True
      let ?s1 = "s\<lparr>debounceInfo := AList.update k'
        (dbi\<lparr>queuedObservers := filter (\<lambda>obs. obs \<noteq> ob) (queuedObservers dbi)\<rparr>) (debounceInfo s)\<rparr>"
      have "live_generation k ?s1 = live_generation k s"
        using Some by (simp add: live_generation_def update_conv')
      moreover have "unsubscribe k' g ob s = ?s1 \<or> unsubscribe k' g ob s = cleanup k' g ?s1"
        using Some True by (simp add: unsubscribe_def Let_def)
      ultimately show ?thesis by blast
    next
      case False
      show ?thesis
      proof (cases "map_of (runningSubscriptions dbi) g")
        case None
        with Some False show ?thesis by (auto simp: unsubscribe_def)
      next
        case og: (Some og)
        let ?s1 = "s\<lparr>debounceInfo := AList.update k'
            (dbi\<lparr>runningSubscriptions :=
                AList.update g (og\<lparr>observers := filter (\<lambda>obs. obs \<noteq> ob) (observers og)\<rparr>)
                  (runningSubscriptions dbi)\<rparr>)
            (debounceInfo s)\<rparr>"
        have a: "live_generation k ?s1 = live_generation k s"
          using Some by (simp add: live_generation_def update_conv')
        have b: "live_generation k (subscription_unsubscribe (subscription og) ?s1)
            = live_generation k s"
          using a by (simp add: live_generation_def subscription_unsubscribe_frame)
        have "unsubscribe k' g ob s = ?s1 \<or>
          unsubscribe k' g ob s = cleanup k' g (subscription_unsubscribe (subscription og) ?s1)"
          using Some False og by (simp add: unsubscribe_def Let_def)
        with a b show ?thesis by blast
      qed
    qed
  qed
  then obtain s1 where s1: "live_generation k s1 = live_generation k s"
    "unsubscribe k' g ob s = s1 \<or> unsubscribe k' g ob s = cleanup k' g s1" by blast
  from s1(2) show ?thesis
  proof
    assume "unsubscribe k' g ob s = s1"
    with s1(1) show ?thesis by simp
  next
    assume u: "unsubscribe k' g ob s = cleanup k' g s1"
    with assms have "map_of (debounceInfo (cleanup k' g s1)) k \<noteq> None" by simp
    from live_generation_cleanup[OF this] s1(1) u show ?thesis by simp
  qed
qed

lemma emit_generations: "generations k (emit c ev s) = generations k s"
proof (cases "c < length (calls s) \<and> \<not> c_closed (calls s ! c)")
  case False
  then show ?thesis by (simp add: emit_closed)
next
  case True
  have f: "generations k (fan_out (c_observers (calls s ! c)) ev s) = generations k s"
    by (simp add: generations_def fan_out_frame)
  from True f show ?thesis
    by (cases ev) (simp_all add: emit_Next emit_terminal generations_cleanup generations_close_call)
qed

lemma emit_live_generation:
  assumes "map_of (debounceInfo (emit c ev s)) k \<noteq> None"
  shows "live_generation k (emit c ev s) = live_generation k s"
proof (cases "c < length (calls s) \<and> \<not> c_closed (calls s ! c)")
  case False
  then show ?thesis by (simp add: emit_closed)
next
  case True
  let ?s1 = "fan_out (c_observers (calls s ! c)) ev s"
  have f: "live_generation k ?s1 = live_generation k s"
    "live_generation k (close_call c ?s1) = live_generation k s"
    by (simp_all add: live_generation_def fan_out_frame close_call_frame)
  show ?thesis
  proof (cases ev)
    case (Next v)
    with True f show ?thesis by (simp add: emit_Next)
  next
    case (Error x)
    with True have e: "emit c ev s = cleanup (c_key (calls s ! c)) (c_groupId (calls s ! c))
                   (close_call c ?s1)"
      by (simp add: emit_terminal)
    from assms live_generation_cleanup[of "c_key (calls s ! c)" "c_groupId (calls s ! c)"
        "close_call c ?s1" k] f show ?thesis unfolding e by simp
  next
    case Complete
    with True have e: "emit c ev s = cleanup (c_key (calls s ! c)) (c_groupId (calls s ! c))
                   (close_call c ?s1)"
      by (simp add: emit_terminal)
    from assms live_generation_cleanup[of "c_key (calls s ! c)" "c_groupId (calls s ! c)"
        "close_call c ?s1" k] f show ?thesis unfolding e by simp
  qed
qed

lemma enqueueRequest_generations:
  assumes "map_of (debounceInfo s) k \<noteq> None"
    and er: "enqueueRequest k' dt op fwd ob s = Inr (g, s')"
  shows "live_generation k s' = live_generation k s"
    and "generations k s' = generations k s"
  using assms(1)
  by (auto simp: live_generation_def generations_def enqueueRequest_effect[OF er]
      split: option.splits)

lemma step_generations:
  assumes "step e s = Inr s'" "map_of (debounceInfo s) k \<noteq> None"
    "map_of (debounceInfo s') k \<noteq> None"
  shows "live_generation k s \<le> live_generation k s' \<and>
         generations k s' = generations k s @ [live_generation k s ..< live_generation k s']"
proof (cases e)
  case (Execute op fwd ob)
  show ?thesis
  proof (cases "debounceKey op = None \<or> debounceKey op = Some []")
    case True
    with assms Execute show ?thesis
      by (auto simp: request_def subscribe_def live_generation_def generations_def)
  next
    case False
    then obtain k' where k: "debounceKey op = Some k'" "k' \<noteq> []" by auto
    then have "request op fwd s = (Debounced k' (debounceTimeout op) op fwd, s)"
      by (simp add: request_def)
    with assms(1) Execute obtain g
      where "enqueueRequest k' (debounceTimeout op) op fwd ob s = Inr (g, s')"
      by (auto simp: subscribe_def split: sum.splits)
    from enqueueRequest_generations[OF assms(2) this] show ?thesis by simp
  qed
next
  case (Cancel k' g ob)
  with assms have s': "s' = unsubscribe k' g ob s" by simp
  from assms(3) show ?thesis
    unfolding s' by (simp add: unsubscribe_generations unsubscribe_live_generation)
next
  case (RunTimersTo t)
  with assms show ?thesis by (simp add: run_timers_to_generations)
next
  case (Emit c ev)
  with assms have s': "s' = emit c ev s" by simp
  from assms(3) show ?thesis
    unfolding s' by (simp add: emit_generations emit_live_generation)
qed

lemma alive_last: "alive k es s \<Longrightarrow> steps es s = Inr s' \<Longrightarrow> map_of (debounceInfo s') k \<noteq> None"
  by (induction es arbitrary: s) (auto split: sum.splits)

lemma steps_generations:
  "alive k es s \<Longrightarrow> steps es s = Inr s' \<Longrightarrow>
   live_generation k s \<le> live_generation k s' \<and>
   generations k s' = generations k s @ [live_generation k s ..< live_generation k s']"
proof (induction es arbitrary: s)
  case Nil
  then show ?case by simp
next
  case (Cons e es)
  from Cons.prems obtain s1 where s1: "step e s = Inr s1" "alive k es s1" "steps es s1 = Inr s'"
    and g: "map_of (debounceInfo s) k \<noteq> None"
    by (auto split: sum.splits)
  have g1: "map_of (debounceInfo s1) k \<noteq> None"
    using s1(2) by (cases es) auto
  from step_generations[OF s1(1) g g1] Cons.IH[OF s1(2,3)]
  show ?case by (simp add: upt_chain)
qed

section \<open>What running the timers does for one key\<close>



section \<open>Cancelling the observers of the accumulating batch\<close>





section \<open>A burst accumulates one batch\<close>







section \<open>Coalescing of a burst\<close>




section \<open>A batch whose observers all cancel is never flushed\<close>



section \<open>Cancelling a running generation\<close>



section \<open>The guard of flush\<close>

text \<open>
  C4, as stated, fails for an absent record: on a link that holds no record for the key,
  \<open>flush\<close> throws instead of returning.
\<close>

theorem flush_absent_counterexample:
  "flush ''k'' (new_link 500) = Inl TypeError"
  by (simp add: flush_def new_link_def)

text \<open>
  C4, amended. When the record exists and its queue is empty, \<open>flush\<close> returns
  normally and leaves the whole state, the downstream calls included, as it was. The
  scheduler never runs \<open>flush\<close> on an absent record: from every reachable state,
  running the timers up to any time returns normally.
\<close>

theorem flush_guard:
  "(map_of (debounceInfo s) k = Some dbi \<and> queuedObservers dbi = [] \<longrightarrow> flush k s = Inr s) \<and>
   (reachable s \<longrightarrow> (\<exists>s'. run_timers_to t s = Inr s'))"
proof (intro conjI impI)
  assume "map_of (debounceInfo s) k = Some dbi \<and> queuedObservers dbi = []"
  then show "flush k s = Inr s"
    by (auto simp: flush_def split: option.splits)
next
  assume "reachable s"
  then have "inv s" by (rule reachable_inv)
  from run_timers_to_inv[OF this] show "\<exists>s'. run_timers_to t s = Inr s'" by blast
qed

theorem flush_guard_witness:
  "\<exists>s. steps [Execute (ex_op 1) 0 (ex_ob 1), RunTimersTo 500] (new_link 500) = Inr s \<and>
       flush ''k'' s = Inr s \<and> (\<exists>s'. run_timers_to 1000 s = Inr s')"
proof -
  let ?s = "\<lparr>debounceInfo =
        [(''k'',
          \<lparr>timeout = Some 1,
             runningSubscriptions = [(0, \<lparr>observers = [ex_ob 1], subscription = 0\<rparr>)],
             queuedObservers = [], currentGroupId = 1,
             lastRequest = Some (ex_op 1, 0)\<rparr>)],
        defaultDelay = 500, clock = 500, timers = [], nextTimer = 2,
        forwarded = [(ex_op 1, 0)],
        calls = [\<lparr>c_operation = ex_op 1, c_forward = 0, c_key = ''k'', c_groupId = 0,
                  c_observers = [ex_ob 1], c_closed = False\<rparr>],
        unsubscribed = [], delivered = []\<rparr>"
  have run: "steps [Execute (ex_op 1) 0 (ex_ob 1), RunTimersTo 500] (new_link 500) = Inr ?s"
    by (simp add: eval_defs)
  have r: "reachable ?s"
    by (rule reachable_steps[OF reachable.init run])
  have g: "map_of (debounceInfo ?s) ''k'' =
      Some \<lparr>timeout = Some 1,
             runningSubscriptions = [(0, \<lparr>observers = [ex_ob 1], subscription = 0\<rparr>)],
             queuedObservers = [], currentGroupId = 1,
             lastRequest = Some (ex_op 1, 0)\<rparr>"
    by simp
  from flush_guard[of ?s "''k''" _ 1000] g r run show ?thesis
    by (intro exI[of _ ?s]) simp
qed

section \<open>What flush leaves behind\<close>

text \<open>
  C5, as stated, fails on the timer handle. One request is submitted and its timer fires
  at 500 ms: after the flush the record still holds the handle \<open>1\<close> of the timer that
  fired. \<open>flush\<close> never assigns \<open>dbi.timeout\<close>.
\<close>

theorem flush_timer_handle_counterexample:
  "(case steps [Execute (ex_op 1) 0 (ex_ob 1), RunTimersTo 500] (new_link 500) of
      Inl e \<Rightarrow> None
    | Inr s \<Rightarrow> map_option timeout (map_of (debounceInfo s) ''k'')) = Some (Some 1)"
  by (simp add: eval_defs)

text \<open>
  C5, amended. For a record with a non-empty queue and last request \<open>(op, fwd)\<close>,
  \<open>flush\<close> returns normally, makes exactly one downstream call, with \<open>op\<close> and
  \<open>fwd\<close>, whose handlers hold the queue as it was; it stores that queue and the new
  subscription under \<open>runningSubscriptions[g]\<close> for the live generation \<open>g\<close>, empties
  the queue and sets \<open>currentGroupId\<close> to \<open>g + 1\<close>. It leaves the \<open>timeout\<close> and
  \<open>lastRequest\<close> fields and the pending timers as they were.
\<close>

theorem flush_postconditions:
  assumes "map_of (debounceInfo s) k = Some dbi"
    and "queuedObservers dbi \<noteq> []"
    and "lastRequest dbi = Some (op, fwd)"
  shows "\<exists>s' dbi'. flush k s = Inr s' \<and> map_of (debounceInfo s') k = Some dbi' \<and>
      forwarded s' = forwarded s @ [(op, fwd)] \<and>
      calls s' = calls s @
        [\<lparr>c_operation = op, c_forward = fwd, c_key = k, c_groupId = currentGroupId dbi,
          c_observers = queuedObservers dbi, c_closed = False\<rparr>] \<and>
      map_of (runningSubscriptions dbi') (currentGroupId dbi) =
        Some \<lparr>observers = queuedObservers dbi, subscription = length (calls s)\<rparr> \<and>
      (\<forall>g. g \<noteq> currentGroupId dbi \<longrightarrow>
         map_of (runningSubscriptions dbi') g = map_of (runningSubscriptions dbi) g) \<and>
      queuedObservers dbi' = [] \<and>
      currentGroupId dbi' = Suc (currentGroupId dbi) \<and>
      timeout dbi' = timeout dbi \<and>
      lastRequest dbi' = lastRequest dbi \<and>
      timers s' = timers s \<and> unsubscribed s' = unsubscribed s \<and> delivered s' = delivered s"
  using assms by (simp add: flush_def forward_subscribe_def Let_def update_conv')

theorem flush_postconditions_witness:
  "\<exists>s' dbi'.
     flush ''k''
       \<lparr>debounceInfo =
          [(''k'', \<lparr>timeout = Some 1, runningSubscriptions = [],
                    queuedObservers = [ex_ob 1, ex_ob 2], currentGroupId = 0,
                    lastRequest = Some (ex_op 2, 0)\<rparr>)],
        defaultDelay = 500, clock = 600, timers = [], nextTimer = 3,
        forwarded = [], calls = [], unsubscribed = [], delivered = []\<rparr> = Inr s' \<and>
     map_of (debounceInfo s') ''k'' = Some dbi' \<and>
     calls s' =
       [\<lparr>c_operation = ex_op 2, c_forward = 0, c_key = ''k'', c_groupId = 0,
         c_observers = [ex_ob 1, ex_ob 2], c_closed = False\<rparr>] \<and>
     map_of (runningSubscriptions dbi') 0 =
       Some \<lparr>observers = [ex_ob 1, ex_ob 2], subscription = 0\<rparr> \<and>
     queuedObservers dbi' = [] \<and> currentGroupId dbi' = 1 \<and> timeout dbi' = Some 1"
  using flush_postconditions
    [of "\<lparr>debounceInfo =
          [(''k'', \<lparr>timeout = Some 1, runningSubscriptions = [],
                    queuedObservers = [ex_ob 1, ex_ob 2], currentGroupId = 0,
                    lastRequest = Some (ex_op 2, 0)\<rparr>)],
        defaultDelay = 500, clock = 600, timers = [], nextTimer = 3,
        forwarded = [], calls = [], unsubscribed = [], delivered = []\<rparr>"
      "''k''"
      "\<lparr>timeout = Some 1, runningSubscriptions = [],
                    queuedObservers = [ex_ob 1, ex_ob 2], currentGroupId = 0,
                    lastRequest = Some (ex_op 2, 0)\<rparr>"
      "ex_op 2" 0]
  by simp blast

section \<open>A record lives exactly as long as it has work\<close>

text \<open>
  C6. In every reachable state each existing record has a non-empty queue or a
  non-empty \<open>runningSubscriptions\<close>: an operation that leaves both empty deletes the
  record, so an idle key keeps no state. \<open>cleanup(k, g)\<close> on an existing record
  deletes it exactly when, with the entry \<open>g\<close> removed, \<open>runningSubscriptions\<close> is
  empty and the queue is empty, and it never touches another key's record. And a
  stimulus that finds the record of \<open>k\<close> deletes it in exactly these cases, \<open>g\<close>
  being the generation the stimulus concerns: it is the cancellation of an observer of
  the live generation \<open>g\<close> of \<open>k\<close>, and the queue without that observer is empty
  and no generation other than \<open>g\<close> is running; it is the cancellation of the last
  observer of the running generation \<open>g\<close> of \<open>k\<close>, and the queue is empty and no
  other generation is running; or it is the error or the completion of the open
  downstream call of generation \<open>g\<close> of \<open>k\<close>, and the queue is empty and no other
  generation is running. No submission, no timer and no data event deletes a record,
  and none is deleted while its queue or another running generation has an observer
  left.
\<close>

theorem record_deleted_exactly_when_idle:
  "(reachable s \<longrightarrow> map_of (debounceInfo s) k = Some dbi \<longrightarrow>
      queuedObservers dbi \<noteq> [] \<or> runningSubscriptions dbi \<noteq> []) \<and>
   (map_of (debounceInfo s) k = Some dbi \<longrightarrow>
      (map_of (debounceInfo (cleanup k g s)) k = None) =
        (AList.delete g (runningSubscriptions dbi) = [] \<and> queuedObservers dbi = []) \<and>
      (\<forall>k'. k' \<noteq> k \<longrightarrow>
         map_of (debounceInfo (cleanup k g s)) k' = map_of (debounceInfo s) k')) \<and>
   (step e s = Inr s' \<longrightarrow> map_of (debounceInfo s) k = Some dbi \<longrightarrow>
      (map_of (debounceInfo s') k = None) =
        (\<exists>g. AList.delete g (runningSubscriptions dbi) = [] \<and>
           ((\<exists>ob. e = Cancel k g ob \<and>
               (if g = currentGroupId dbi
                then filter (\<lambda>x. x \<noteq> ob) (queuedObservers dbi) = []
                else queuedObservers dbi = [] \<and>
                     (\<exists>og. map_of (runningSubscriptions dbi) g = Some og \<and>
                           filter (\<lambda>x. x \<noteq> ob) (observers og) = []))) \<or>
            (\<exists>c ev. e = Emit c ev \<and> c < length (calls s) \<and> \<not> c_closed (calls s ! c) \<and>
               (\<forall>v. ev \<noteq> Next v) \<and> c_key (calls s ! c) = k \<and>
               c_groupId (calls s ! c) = g \<and> queuedObservers dbi = []))))"
proof (intro conjI impI allI)
  assume "reachable s" "map_of (debounceInfo s) k = Some dbi"
  then show "queuedObservers dbi \<noteq> [] \<or> runningSubscriptions dbi \<noteq> []"
    by (rule reachable_not_idle)
next
  assume "map_of (debounceInfo s) k = Some dbi"
  then show "(map_of (debounceInfo (cleanup k g s)) k = None) =
        (AList.delete g (runningSubscriptions dbi) = [] \<and> queuedObservers dbi = [])"
    by (rule cleanup_deletes_iff(1))
next
  fix k' assume "map_of (debounceInfo s) k = Some dbi" "k' \<noteq> k"
  then show "map_of (debounceInfo (cleanup k g s)) k' = map_of (debounceInfo s) k'"
    by (rule cleanup_deletes_iff(2))
next
  assume "step e s = Inr s'" "map_of (debounceInfo s) k = Some dbi"
  then show "(map_of (debounceInfo s') k = None) =
        (\<exists>g. AList.delete g (runningSubscriptions dbi) = [] \<and>
           ((\<exists>ob. e = Cancel k g ob \<and>
               (if g = currentGroupId dbi
                then filter (\<lambda>x. x \<noteq> ob) (queuedObservers dbi) = []
                else queuedObservers dbi = [] \<and>
                     (\<exists>og. map_of (runningSubscriptions dbi) g = Some og \<and>
                           filter (\<lambda>x. x \<noteq> ob) (observers og) = []))) \<or>
            (\<exists>c ev. e = Emit c ev \<and> c < length (calls s) \<and> \<not> c_closed (calls s ! c) \<and>
               (\<forall>v. ev \<noteq> Next v) \<and> c_key (calls s ! c) = k \<and>
               c_groupId (calls s ! c) = g \<and> queuedObservers dbi = [])))"
    by (rule step_deletes_iff)
qed

theorem record_deleted_exactly_when_idle_witness:
  "runningSubscriptions
     \<lparr>timeout = Some 2,
      runningSubscriptions = [(0, \<lparr>observers = [ex_ob 1, ex_ob 2], subscription = 0\<rparr>)],
      queuedObservers = [], currentGroupId = 1, lastRequest = Some (ex_op 2, 0)\<rparr> \<noteq> [] \<and>
   map_of (debounceInfo (cleanup ''k'' 0 ex_running)) ''k'' = None \<and>
   map_of (debounceInfo (cleanup ''k'' 1 ex_running)) ''k'' \<noteq> None \<and>
   map_of (debounceInfo (emit 0 Complete ex_running)) ''k'' = None \<and>
   map_of (debounceInfo (emit 0 (Next 7) ex_running)) ''k'' \<noteq> None \<and>
   map_of (debounceInfo (unsubscribe ''k'' 0 (ex_ob 1) ex_running)) ''k'' \<noteq> None \<and>
   map_of (debounceInfo (unsubscribe ''k'' 0 (ex_ob 1) ex_pending)) ''k'' \<noteq> None"
proof -
  let ?d = "\<lparr>timeout = Some 2,
      runningSubscriptions = [(0, \<lparr>observers = [ex_ob 1, ex_ob 2], subscription = 0\<rparr>)],
      queuedObservers = [], currentGroupId = 1, lastRequest = Some (ex_op 2, 0)\<rparr>"
  let ?p = "\<lparr>timeout = Some 2, runningSubscriptions = [],
      queuedObservers = [ex_ob 1, ex_ob 2], currentGroupId = 0,
      lastRequest = Some (ex_op 2, 0)\<rparr>"
  have g: "map_of (debounceInfo ex_running) ''k'' = Some ?d"
    by (simp add: ex_running_def)
  have gp: "map_of (debounceInfo ex_pending) ''k'' = Some ?p"
    by (simp add: ex_pending_def)
  have c: "calls ex_running ! 0 =
      \<lparr>c_operation = ex_op 2, c_forward = 0, c_key = ''k'', c_groupId = 0,
         c_observers = [ex_ob 1, ex_ob 2], c_closed = False\<rparr>"
    "length (calls ex_running) = 1"
    by (simp_all add: ex_running_def)
  have st: "step (Emit 0 Complete) ex_running = Inr (emit 0 Complete ex_running)"
    "step (Emit 0 (Next 7)) ex_running = Inr (emit 0 (Next 7) ex_running)"
    "step (Cancel ''k'' 0 (ex_ob 1)) ex_running = Inr (unsubscribe ''k'' 0 (ex_ob 1) ex_running)"
    "step (Cancel ''k'' 0 (ex_ob 1)) ex_pending = Inr (unsubscribe ''k'' 0 (ex_ob 1) ex_pending)"
    by simp_all
  from record_deleted_exactly_when_idle
    [of ex_running "''k''" ?d 0 "Emit 0 Complete" "emit 0 Complete ex_running"]
    record_deleted_exactly_when_idle
    [of ex_running "''k''" ?d 1 "Emit 0 (Next 7)" "emit 0 (Next 7) ex_running"]
    record_deleted_exactly_when_idle
    [of ex_running "''k''" ?d 0 "Cancel ''k'' 0 (ex_ob 1)"
        "unsubscribe ''k'' 0 (ex_ob 1) ex_running"]
    record_deleted_exactly_when_idle
    [of ex_pending "''k''" ?p 0 "Cancel ''k'' 0 (ex_ob 1)"
        "unsubscribe ''k'' 0 (ex_ob 1) ex_pending"]
    g gp c st ex_running_reachable
  show ?thesis by (simp add: ex_ob_def)
qed

section \<open>Cancelling twice\<close>

text \<open>
  C7. In every state, running the cancel closure
  \<open>() => this.unsubscribe(debounceKey, debounceGroupId, observer)\<close> a second time
  right after the first yields the state the first one left, logs of timers, downstream
  calls, downstream cancellations and callback invocations included. A cancel that finds
  no record for the key changes nothing; \<open>unsubscribe\<close> has no failing branch.
\<close>

theorem cancel_idempotent:
  "unsubscribe k g ob (unsubscribe k g ob s) = unsubscribe k g ob s \<and>
   (map_of (debounceInfo s) k = None \<longrightarrow> unsubscribe k g ob s = s)"
  by (simp add: unsubscribe_twice unsubscribe_absent)

theorem cancel_idempotent_witness:
  "unsubscribe ''k'' 0 (ex_ob 2) (unsubscribe ''k'' 0 (ex_ob 2) ex_running)
     = unsubscribe ''k'' 0 (ex_ob 2) ex_running \<and>
   unsubscribe ''k'' 0 (ex_ob 2) (new_link 500) = new_link 500"
  using cancel_idempotent[of "''k''" 0 "ex_ob 2" ex_running]
    cancel_idempotent[of "''k''" 0 "ex_ob 2" "new_link 500"]
  by (simp add: new_link_def)

section \<open>Generation identifiers of successive batches\<close>

text \<open>
  C8, as stated, fails across deletions of the record. A request is flushed as
  generation 0 and completes, which deletes the record; the next request for the same
  key creates a new record, whose numbering starts at 0 again, and is flushed as
  generation 0 too.
\<close>

theorem generation_restart_counterexample:
  "(case steps [Execute (ex_op 1) 0 (ex_ob 1), RunTimersTo 500, Emit 0 Complete,
                Execute (ex_op 2) 0 (ex_ob 2), RunTimersTo 1000] (new_link 500) of
      Inl e \<Rightarrow> False
    | Inr s \<Rightarrow> generations ''k'' s = [0, 0])"
  by (simp add: eval_defs generations_def)

text \<open>
  C8, amended. A flush of a non-empty batch gives the batch the live generation \<open>g\<close>
  and sets \<open>currentGroupId\<close> to \<open>g + 1\<close>. Along every run of stimuli during which
  the record of the key exists in every state, \<open>currentGroupId\<close> never decreases and
  the batches flushed in the run get exactly the identifiers from the live generation at
  the start up to the one at the end, one after the other: strictly increasing by one. In
  a reachable state every running generation is below the live one. A record created
  anew (for a key that names no member of \<open>Object.prototype\<close>: for one that does,
  none is created) starts at generation 0.
\<close>

theorem generations_increase_while_record_lives:
  "(alive k es s \<and> steps es s = Inr s' \<longrightarrow>
      live_generation k s \<le> live_generation k s' \<and>
      generations k s' =
        generations k s @ [live_generation k s ..< live_generation k s']) \<and>
   (map_of (debounceInfo s) k = Some dbi \<and> queuedObservers dbi \<noteq> [] \<and>
    lastRequest dbi \<noteq> None \<longrightarrow>
      (\<exists>s1. flush k s = Inr s1 \<and> live_generation k s1 = Suc (currentGroupId dbi) \<and>
            generations k s1 = generations k s @ [currentGroupId dbi])) \<and>
   (reachable s \<and> map_of (debounceInfo s) k = Some dbi \<and>
    map_of (runningSubscriptions dbi) g = Some og \<longrightarrow> g < currentGroupId dbi) \<and>
   (map_of (debounceInfo s) k = None \<and> \<not> inherited k \<longrightarrow>
      (\<exists>s1. enqueueRequest k dt op fwd ob s = Inr (0, s1) \<and> live_generation k s1 = 0))"
proof (intro conjI impI)
  assume "alive k es s \<and> steps es s = Inr s'"
  then have "live_generation k s \<le> live_generation k s' \<and>
      generations k s' =
        generations k s @ [live_generation k s ..< live_generation k s']"
    using steps_generations[of k es s s'] by blast
  then show "live_generation k s \<le> live_generation k s'"
    and "generations k s' =
        generations k s @ [live_generation k s ..< live_generation k s']"
    by simp_all
next
  assume a: "map_of (debounceInfo s) k = Some dbi \<and> queuedObservers dbi \<noteq> [] \<and>
    lastRequest dbi \<noteq> None"
  then obtain s1 where s1: "flush k s = Inr s1" using flush_present by blast
  from a have lg: "live_generation k s = currentGroupId dbi"
    by (simp add: live_generation_def)
  from a s1 have "live_generation k s1 = Suc (currentGroupId dbi)"
    by (auto simp: flush_def forward_subscribe_def Let_def live_generation_def update_conv')
  with flush_generations[OF s1, of k] lg s1
  show "\<exists>s1. flush k s = Inr s1 \<and> live_generation k s1 = Suc (currentGroupId dbi) \<and>
            generations k s1 = generations k s @ [currentGroupId dbi]"
    by simp
next
  assume "reachable s \<and> map_of (debounceInfo s) k = Some dbi \<and>
    map_of (runningSubscriptions dbi) g = Some og"
  then show "g < currentGroupId dbi"
    using running_below_current[OF reachable_inv] by blast
next
  assume a: "map_of (debounceInfo s) k = None \<and> \<not> inherited k"
  then obtain g s1 where er: "enqueueRequest k dt op fwd ob s = Inr (g, s1)"
    using enqueueRequest_returns[of s k dt op fwd ob] by blast
  from a have "g = 0" "live_generation k s1 = 0"
    by (simp_all add: live_generation_def enqueueRequest_effect[OF er] fresh_record_def)
  with er show "\<exists>s1. enqueueRequest k dt op fwd ob s = Inr (0, s1) \<and> live_generation k s1 = 0"
    by blast
qed

theorem generations_increase_while_record_lives_witness:
  "generations ''k'' ex_running = [0] \<and>
   (\<exists>s'. steps [Execute (ex_op 3) 0 (ex_ob 3), RunTimersTo 1000] ex_running = Inr s' \<and>
         generations ''k'' s' = [0, 1] \<and> live_generation ''k'' s' = 2) \<and>
   (\<exists>s1. enqueueRequest ''k'' None (ex_op 1) 0 (ex_ob 1) (new_link 500) = Inr (0, s1) \<and>
         live_generation ''k'' s1 = 0)"
proof -
  let ?es = "[Execute (ex_op 3) 0 (ex_ob 3), RunTimersTo 1000]"
  have "\<exists>s'. steps ?es ex_running = Inr s'"
    by (simp add: eval_defs ex_running_def)
  then obtain s' where run: "steps ?es ex_running = Inr s'" by blast
  have al: "alive ''k'' ?es ex_running"
    by (simp add: eval_defs ex_running_def)
  have lg: "live_generation ''k'' s' = 2"
    using run by (auto simp: eval_defs ex_running_def live_generation_def)
  have g0: "generations ''k'' ex_running = [0]" "live_generation ''k'' ex_running = 1"
    by (simp_all add: ex_running_def generations_def live_generation_def)
  from generations_increase_while_record_lives[of "''k''" ?es ex_running s'] al run
  have "generations ''k'' s' =
      generations ''k'' ex_running @ [live_generation ''k'' ex_running ..< live_generation ''k'' s']"
    by blast
  with lg g0 have "generations ''k'' s' = [0, 1]"
    by (simp add: upt_rec)
  moreover have "map_of (debounceInfo (new_link 500)) ''k'' = None \<and> \<not> inherited ''k''"
    by (simp add: new_link_def inherited_def object_prototype_names_def)
  with generations_increase_while_record_lives
    [where k = "''k''" and s = "new_link 500" and dt = None and op = "ex_op 1"
      and fwd = 0 and ob = "ex_ob 1"]
  have "\<exists>s1. enqueueRequest ''k'' None (ex_op 1) 0 (ex_ob 1) (new_link 500) = Inr (0, s1) \<and>
         live_generation ''k'' s1 = 0"
    by blast
  ultimately show ?thesis using run lg g0 by blast
qed

section \<open>Passthrough of requests without a key\<close>

text \<open>
  C9. A request whose \<open>debounceKey\<close> is absent or the empty string is handed to
  \<open>forward\<close> at once: \<open>request\<close> logs exactly this invocation, returns the observable
  that \<open>forward\<close> returned, and leaves the group records, the timers, the link's own
  downstream subscriptions and every other part of the state as they were. The result is
  a value, not an error, and subscribing to the returned observable does not touch the
  link.
\<close>

theorem request_passthrough:
  assumes "debounceKey op = None \<or> debounceKey op = Some []"
  shows "request op fwd s =
           (Forwarded (length (forwarded s)), s\<lparr>forwarded := forwarded s @ [(op, fwd)]\<rparr>)
         \<and> debounceInfo (snd (request op fwd s)) = debounceInfo s
         \<and> timers (snd (request op fwd s)) = timers s
         \<and> calls (snd (request op fwd s)) = calls s
         \<and> subscribe (fst (request op fwd s)) ob (snd (request op fwd s))
             = Inr (None, snd (request op fwd s))"
  using assms by (auto simp: request_def subscribe_def)

theorem request_passthrough_witness:
  "request \<lparr>debounceKey = Some [], debounceTimeout = Some 5, query = 7\<rparr> 3 (new_link 500)
     = (Forwarded 0,
        (new_link 500)\<lparr>forwarded :=
           [(\<lparr>debounceKey = Some [], debounceTimeout = Some 5, query = 7\<rparr>, 3)]\<rparr>)"
  using request_passthrough
    [of "\<lparr>debounceKey = Some [], debounceTimeout = Some 5, query = 7\<rparr>" 3 "new_link 500"]
  by (simp add: new_link_def)

section \<open>A cancelled observer of a running generation\<close>

text \<open>
  C10. In a reachable state let generation \<open>g\<close> of key \<open>k\<close> be running, its
  downstream call in flight. When one observer cancels and another observer of the entry
  remains, \<open>unsubscribe\<close> only replaces \<open>runningSubscriptions[g].observers\<close> by the
  filtered copy: the call and the array its handlers closed over are untouched. Every
  event the call delivers afterwards is fanned out over that whole array, so the
  cancelled observer, being in the array, still has its callback invoked for each of
  them (for each one it has a callback for).
\<close>

theorem cancelled_observer_still_served:
  assumes "reachable s"
    and "map_of (debounceInfo s) k = Some dbi"
    and "map_of (runningSubscriptions dbi) g = Some og"
    and "filter (\<lambda>obs. obs \<noteq> ob) (observers og) \<noteq> []"
    and "subscription og < length (calls s)"
    and "\<not> c_closed (calls s ! subscription og)"
    and "ob \<in> set (c_observers (calls s ! subscription og))"
  shows "calls (unsubscribe k g ob s) = calls s \<and>
    delivered (emits (subscription og) evs (unsubscribe k g ob s)) =
      delivered (unsubscribe k g ob s) @
        deliveries (c_observers (calls s ! subscription og)) (accepted evs) \<and>
    (\<forall>ev \<in> set (accepted evs). handles ob ev \<longrightarrow>
       (ob, ev) \<in> set (deliveries (c_observers (calls s ! subscription og)) (accepted evs)))"
proof -
  from assms(1-3) have ne: "g \<noteq> currentGroupId dbi"
    using running_below_current[OF reachable_inv] by fastforce
  note u = unsubscribe_running_others[OF assms(2) ne assms(3,4)]
  have c: "calls (unsubscribe k g ob s) = calls s"
    unfolding u by simp
  have "delivered (emits (subscription og) evs (unsubscribe k g ob s)) =
      delivered (unsubscribe k g ob s) @
        deliveries (c_observers (calls (unsubscribe k g ob s) ! subscription og)) (accepted evs)"
    by (rule emits_delivered) (use assms(5,6) in \<open>simp_all add: c\<close>)
  with c assms(7) show ?thesis
    by (auto intro: deliveries_mem)
qed

theorem cancelled_observer_still_served_witness:
  "delivered (emits 0 [Next 7, Complete] (unsubscribe ''k'' 0 (ex_ob 1) ex_running)) =
     [(ex_ob 1, Next 7), (ex_ob 2, Next 7), (ex_ob 1, Complete), (ex_ob 2, Complete)]"
proof -
  let ?og = "\<lparr>observers = [ex_ob 1, ex_ob 2], subscription = 0\<rparr>"
  let ?d = "\<lparr>timeout = Some 2, runningSubscriptions = [(0, ?og)],
             queuedObservers = [], currentGroupId = 1, lastRequest = Some (ex_op 2, 0)\<rparr>"
  have g: "map_of (debounceInfo ex_running) ''k'' = Some ?d"
    by (simp add: ex_running_def)
  have og: "map_of (runningSubscriptions ?d) 0 = Some ?og"
    by simp
  have ne: "filter (\<lambda>obs. obs \<noteq> ex_ob 1) (observers ?og) \<noteq> []"
    by (simp add: ex_ob_def)
  have l: "subscription ?og < length (calls ex_running)"
    "\<not> c_closed (calls ex_running ! subscription ?og)"
    "ex_ob 1 \<in> set (c_observers (calls ex_running ! subscription ?og))"
    by (simp_all add: ex_running_def)
  have d: "delivered (unsubscribe ''k'' 0 (ex_ob 1) ex_running) = []"
    by (simp add: eval_defs ex_running_def)
  from cancelled_observer_still_served[OF ex_running_reachable g og ne l,
      of "[Next 7, Complete]"] d
  show ?thesis
    by (simp add: deliveries_def ex_running_def) (simp add: ex_ob_def)
qed

end
